theory Spec2Isabelle
  imports
    Main
    "HOL-Library.Word"
    "HOL-Library.Sublist"
    "HOL-Library.Char_ord"
    "HOL-Library.List_Lexorder"
    "HOL-Library.Multiset"
begin

section \<open>Python values and exceptions\<close>

text \<open>
  The development embeds \<^verbatim>\<open>finder.py\<close> and \<^verbatim>\<open>grepper.py\<close>. Python byte strings are
  lists of 8-bit words. A Python text string is represented by a \<^typ>\<open>string\<close>: the bytes
  that the string encodes to in the file-system encoding (UTF-8 with the
  \<^verbatim>\<open>surrogateescape\<close> handler), so that an ASCII character is its own byte and a file name
  is the name as the file system stores it. Every exception that the code can raise is
  a value of \<open>py_error\<close>; a function that can raise returns \<open>py_error + 'a\<close> with \<open>Inl\<close>
  for the exception.
\<close>

type_synonym byte = "8 word"

datatype py_error =
  OSError | UnboundLocalError | ValueError | OverflowError | GzipError | UnsupportedFileType

text \<open>
  A file object opened for reading, positioned at its start. \<open>Stream bs\<close> delivers the
  bytes \<open>bs\<close>; \<open>Broken e\<close> is a file object whose \<^verbatim>\<open>read\<close> raises \<open>e\<close> (an I/O
  error on a regular file, a corrupt stream behind \<^verbatim>\<open>gzip.open\<close>).
\<close>

datatype fileobj = Stream "byte list" | Broken py_error

text \<open>
  \<^verbatim>\<open>f.read(n)\<close> of a buffered binary file object: a size below \<open>-1\<close> raises
  \<^verbatim>\<open>ValueError\<close>, a size that does not fit a signed 64-bit index raises
  \<^verbatim>\<open>OverflowError\<close>; otherwise the read delivers everything for \<open>-1\<close> and at most \<open>n\<close>
  bytes for \<open>n \<ge> 0\<close>.
\<close>

fun read :: "fileobj \<Rightarrow> int \<Rightarrow> py_error + byte list" where
  "read (Stream bs) n =
     (if n < - 1 then Inl ValueError
      else if 2 ^ 63 \<le> n then Inl OverflowError
      else Inr (if n = - 1 then bs else take (nat n) bs))"
| "read (Broken e) n =
     (if n < - 1 then Inl ValueError
      else if 2 ^ 63 \<le> n then Inl OverflowError
      else Inl e)"

text \<open>
  \<^verbatim>\<open>bytes.translate(table, delete)\<close>: the bytes of \<open>delete\<close> are removed, the others are
  mapped through the 256-entry \<open>table\<close>.
\<close>

definition translate :: "byte list \<Rightarrow> byte list \<Rightarrow> byte list \<Rightarrow> byte list" where
  "translate table delete bs = map (\<lambda>b. table ! unat b) (filter (\<lambda>b. b \<notin> set delete) bs)"

section \<open>finder.py: module constants\<close>

definition TEXTCHARS :: "byte list" where
  "TEXTCHARS = map of_nat ([7, 8, 9, 10, 12, 13, 27] @ [0x20 ..< 0x100])"

definition ALLBYTES :: "byte list" where
  "ALLBYTES = map of_nat [0 ..< 256]"

definition GZIP_MAGIC :: "byte list" where
  "GZIP_MAGIC = [0x1F, 0x8B]"

section \<open>Standard-library string and path functions (POSIX)\<close>

text \<open>
  The repository calls \<^verbatim>\<open>str.startswith\<close>, \<^verbatim>\<open>str.endswith\<close>, \<^verbatim>\<open>str.rfind\<close> and the
  \<^verbatim>\<open>os.path\<close> functions \<^verbatim>\<open>split\<close>, \<^verbatim>\<open>join\<close>, \<^verbatim>\<open>splitext\<close> and \<^verbatim>\<open>normcase\<close>. They are
  modelled after CPython's \<^verbatim>\<open>posixpath\<close> and \<^verbatim>\<open>genericpath\<close>, where the separator is
  \<^verbatim>\<open>/\<close>, the extension separator is \<^verbatim>\<open>.\<close> and \<^verbatim>\<open>normcase\<close> returns its argument.
\<close>

definition startswith :: "string \<Rightarrow> string \<Rightarrow> bool" where
  "startswith s pre = prefix pre s"

definition endswith :: "string \<Rightarrow> string \<Rightarrow> bool" where
  "endswith s suf = suffix suf s"

text \<open>\<^verbatim>\<open>s.rfind(c)\<close>: the highest index of \<open>c\<close> in \<open>s\<close>, or \<open>-1\<close>.\<close>

fun rfind :: "string \<Rightarrow> char \<Rightarrow> int" where
  "rfind [] c = - 1"
| "rfind (x # xs) c =
     (let r = rfind xs c in if r \<noteq> - 1 then r + 1 else if x = c then 0 else - 1)"

definition rstrip :: "string \<Rightarrow> char \<Rightarrow> string" where
  "rstrip s c = rev (dropWhile (\<lambda>x. x = c) (rev s))"

text \<open>
  \<^verbatim>\<open>posixpath.split\<close>:
  \<^verbatim>\<open>i = p.rfind('/') + 1; head, tail = p[:i], p[i:]\<close>, and trailing separators are
  stripped from a head that is not made of separators only.
\<close>

definition os_path_split :: "string \<Rightarrow> string \<times> string" where
  "os_path_split p =
     (let i = nat (rfind p CHR ''/'' + 1);
          head = take i p;
          tail = drop i p
      in (if head \<noteq> [] \<and> head \<noteq> replicate (length head) CHR ''/''
          then rstrip head CHR ''/'' else head,
          tail))"

text \<open>
  \<^verbatim>\<open>posixpath.join(a, b)\<close>: \<open>b\<close> alone when it is absolute, \<open>a + b\<close> when \<open>a\<close> is empty
  or ends with the separator, \<open>a + '/' + b\<close> otherwise.
\<close>

definition os_path_join :: "string \<Rightarrow> string \<Rightarrow> string" where
  "os_path_join a b =
     (if startswith b ''/'' then b
      else if a = [] \<or> endswith a ''/'' then a @ b
      else a @ ''/'' @ b)"

definition normcase :: "string \<Rightarrow> string" where
  "normcase p = p"

text \<open>
  \<^verbatim>\<open>genericpath._splitext\<close>. Its loop walks \<^verbatim>\<open>filenameIndex\<close> from the start of the
  basename up to the last dot and returns the split at the first character that is not
  a dot; \<open>splitext_loop\<close> is that loop and says whether it returned the split.
\<close>

function splitext_loop :: "string \<Rightarrow> nat \<Rightarrow> nat \<Rightarrow> bool" where
  "splitext_loop p filenameIndex dotIndex =
     (if filenameIndex < dotIndex
      then (if take 1 (drop filenameIndex p) \<noteq> ''.'' then True
            else splitext_loop p (filenameIndex + 1) dotIndex)
      else False)"
  by pat_completeness auto
termination
  by (relation "measure (\<lambda>(p, filenameIndex, dotIndex). dotIndex - filenameIndex)") auto

definition splitext :: "string \<Rightarrow> string \<times> string" where
  "splitext p =
     (let sepIndex = rfind p CHR ''/'';
          dotIndex = rfind p CHR ''.''
      in if dotIndex > sepIndex \<and> splitext_loop p (nat (sepIndex + 1)) (nat dotIndex)
         then (take (nat dotIndex) p, drop (nat dotIndex) p)
         else (p, []))"

text \<open>
  \<^verbatim>\<open>os.listdir\<close> returns Python strings: the stored names decoded as UTF-8 with the
  \<^verbatim>\<open>surrogateescape\<close> error handler (the file-system encoding), and \<^verbatim>\<open>sorted\<close> compares
  strings by the code points of their characters. In this development a Python string
  is represented by the bytes that it encodes to, so the code points are obtained by
  decoding: \<open>utf8_decode\<close> is the decoder on byte values (a well-formed sequence gives its
  code point, any other byte \<open>b\<close> gives the lone surrogate \<open>0xDC00 + b\<close>), and \<open>fsdecode\<close>
  applies it to a string.
\<close>

definition cont :: "nat \<Rightarrow> bool" where
  "cont b \<longleftrightarrow> 0x80 \<le> b \<and> b \<le> 0xBF"

fun utf8_decode :: "nat list \<Rightarrow> nat list" where
  "utf8_decode [] = []"
| "utf8_decode (b # bs) =
     (if b < 0x80 then b # utf8_decode bs
      else if 0xC2 \<le> b \<and> b \<le> 0xDF then
        (case bs of
           c1 # r \<Rightarrow>
             if cont c1 then ((b - 0xC0) * 0x40 + (c1 - 0x80)) # utf8_decode r
             else (0xDC00 + b) # utf8_decode bs
         | _ \<Rightarrow> (0xDC00 + b) # utf8_decode bs)
      else if 0xE0 \<le> b \<and> b \<le> 0xEF then
        (case bs of
           c1 # c2 # r \<Rightarrow>
             if cont c1 \<and> (b = 0xE0 \<longrightarrow> 0xA0 \<le> c1) \<and> (b = 0xED \<longrightarrow> c1 \<le> 0x9F) \<and> cont c2
             then ((b - 0xE0) * 0x1000 + (c1 - 0x80) * 0x40 + (c2 - 0x80)) # utf8_decode r
             else (0xDC00 + b) # utf8_decode bs
         | _ \<Rightarrow> (0xDC00 + b) # utf8_decode bs)
      else if 0xF0 \<le> b \<and> b \<le> 0xF4 then
        (case bs of
           c1 # c2 # c3 # r \<Rightarrow>
             if cont c1 \<and> (b = 0xF0 \<longrightarrow> 0x90 \<le> c1) \<and> (b = 0xF4 \<longrightarrow> c1 \<le> 0x8F)
                \<and> cont c2 \<and> cont c3
             then ((b - 0xF0) * 0x40000 + (c1 - 0x80) * 0x1000 + (c2 - 0x80) * 0x40
                   + (c3 - 0x80)) # utf8_decode r
             else (0xDC00 + b) # utf8_decode bs
         | _ \<Rightarrow> (0xDC00 + b) # utf8_decode bs)
      else (0xDC00 + b) # utf8_decode bs)"

definition fsdecode :: "string \<Rightarrow> nat list" where
  "fsdecode s = utf8_decode (map of_char s)"

section \<open>The file system seen by the program\<close>

text \<open>
  The operating-system calls of the code are read from a record of the file system's
  state. \<open>None\<close> stands for the call raising \<^verbatim>\<open>OSError\<close> (of which \<^verbatim>\<open>IOError\<close> is an
  alias). \<open>gzip_open\<close> is the file object that \<^verbatim>\<open>gzip.open\<close> returns: its reads deliver
  the decompressed stream, or raise when the stream is corrupt.
\<close>

datatype file_type = S_IFREG | S_IFDIR | S_IFOTHER

record stat_result =
  st_mode :: file_type
  st_size :: nat

record filesystem =
  os_stat :: "string \<Rightarrow> stat_result option"
  islink :: "string \<Rightarrow> bool"
  open_rb :: "string \<Rightarrow> fileobj option"
  gzip_open :: "string \<Rightarrow> fileobj option"
  listdir :: "string \<Rightarrow> string list option"

datatype kind = Skip | Link | Directory | Text | Binary | Gzip | Unreadable

section \<open>The Finder object\<close>

record finder =
  skip_sub_dirs :: bool
  skip_hidden_dirs :: bool
  skip_hidden_files :: bool
  skip_dirs :: "string set"
  skip_symlink_dirs :: bool
  skip_symlink_files :: bool
  binary_bytes :: int
  skip_exts_simple :: "string set"
  skip_exts_endswith :: "string list"

text \<open>
  \<^verbatim>\<open>Finder.__init__\<close>. \<open>exts\<close> lists the configured extensions in the order in which the
  loop \<^verbatim>\<open>for ext in skip_exts\<close> visits them.
\<close>

definition partition_ext :: "string \<Rightarrow> string set \<times> string list \<Rightarrow> string set \<times> string list" where
  "partition_ext ext acc =
     (if snd (splitext (''foo.bar'' @ ext)) = ext
      then (insert ext (fst acc), snd acc)
      else (fst acc, snd acc @ [ext]))"

definition Finder ::
  "bool \<Rightarrow> bool \<Rightarrow> bool \<Rightarrow> string set \<Rightarrow> string list \<Rightarrow> bool \<Rightarrow> bool \<Rightarrow> int \<Rightarrow> finder" where
  "Finder sub_dirs hidden_dirs hidden_files dirs exts symlink_dirs symlink_files nbytes =
     (let parts = fold partition_ext exts ({}, [])
      in \<lparr> skip_sub_dirs = sub_dirs,
           skip_hidden_dirs = hidden_dirs,
           skip_hidden_files = hidden_files,
           skip_dirs = dirs,
           skip_symlink_dirs = symlink_dirs,
           skip_symlink_files = symlink_files,
           binary_bytes = nbytes,
           skip_exts_simple = fst parts,
           skip_exts_endswith = snd parts \<rparr>)"

text \<open>
  \<^verbatim>\<open>Finder._is_binary_file\<close>. The local variable \<^verbatim>\<open>bytes\<close> is bound only when the read
  succeeds; when the read raises, the handler sets \<^verbatim>\<open>is_binary = True\<close> and the next
  statement, \<^verbatim>\<open>bytes.translate(...)\<close>, reads the unbound local and raises
  \<^verbatim>\<open>UnboundLocalError\<close>.
\<close>

definition is_binary_file :: "finder \<Rightarrow> fileobj \<Rightarrow> py_error + bool" where
  "is_binary_file self f =
     (case read f (binary_bytes self) of
        Inl e \<Rightarrow> Inl UnboundLocalError
      | Inr bytes \<Rightarrow>
          (let nontext = translate ALLBYTES TEXTCHARS bytes
           in Inr (nontext \<noteq> [])))"

text \<open>
  \<^verbatim>\<open>Finder._is_gzipped_text\<close>. The two opens and the marker read are outside the
  \<^verbatim>\<open>try\<close>; the handler \<^verbatim>\<open>except IOError\<close> covers the call of \<^verbatim>\<open>_is_binary_file\<close> only.
\<close>

definition is_gzipped_text :: "finder \<Rightarrow> filesystem \<Rightarrow> string \<Rightarrow> py_error + bool" where
  "is_gzipped_text self fs filename =
     (case open_rb fs filename of
        None \<Rightarrow> Inl OSError
      | Some f \<Rightarrow>
          (case read f 2 of
             Inl e \<Rightarrow> Inl e
           | Inr marker \<Rightarrow>
               if marker = GZIP_MAGIC then
                 (case gzip_open fs filename of
                    None \<Rightarrow> Inl OSError
                  | Some g \<Rightarrow>
                      (case is_binary_file self g of
                         Inl e \<Rightarrow> if e = OSError then Inr False else Inl e
                       | Inr b \<Rightarrow> Inr (\<not> b)))
               else Inr False))"

text \<open>\<^verbatim>\<open>Finder.categorize_directory\<close>.\<close>

definition categorize_directory :: "finder \<Rightarrow> filesystem \<Rightarrow> string \<Rightarrow> kind" where
  "categorize_directory self fs dir_path =
     (let basename = snd (os_path_split dir_path) in
      if skip_hidden_dirs self \<and> startswith basename ''.'' \<and> basename \<notin> {''.'', ''..''}
      then Skip
      else if skip_symlink_dirs self \<and> islink fs dir_path then Link
      else if basename \<in> skip_dirs self then Skip
      else Directory)"

text \<open>
  \<^verbatim>\<open>Finder.categorize_file\<close>. \<open>except_OSError\<close> is the handler
  \<^verbatim>\<open>except (OSError, IOError): return 'unreadable'\<close> around the open and the two checks.
\<close>

definition except_OSError :: "py_error + kind \<Rightarrow> kind \<Rightarrow> py_error + kind" where
  "except_OSError r k = (case r of Inl e \<Rightarrow> if e = OSError then Inr k else Inl e | Inr v \<Rightarrow> Inr v)"

definition categorize_file :: "finder \<Rightarrow> filesystem \<Rightarrow> string \<Rightarrow> py_error + kind" where
  "categorize_file self fs file_path =
     (let basename = snd (os_path_split file_path) in
      if skip_hidden_files self \<and> startswith basename ''.'' then Inr Skip
      else if skip_symlink_files self \<and> islink fs file_path then Inr Link
      else
        (let file_path_nc = normcase file_path;
             ext = snd (splitext file_path_nc)
         in if ext \<in> skip_exts_simple self \<or> startswith ext ''.~'' then Inr Skip
            else if list_ex (\<lambda>ext. endswith file_path_nc ext) (skip_exts_endswith self)
            then Inr Skip
            else
              except_OSError
                (case open_rb fs file_path of
                   None \<Rightarrow> Inl OSError
                 | Some f \<Rightarrow>
                     (case is_binary_file self f of
                        Inl e \<Rightarrow> Inl e
                      | Inr is_binary \<Rightarrow>
                          if is_binary then
                            (case is_gzipped_text self fs file_path of
                               Inl e \<Rightarrow> Inl e
                             | Inr is_gz \<Rightarrow> if is_gz then Inr Gzip else Inr Binary)
                          else Inr Text))
                Unreadable))"

text \<open>\<^verbatim>\<open>Finder.categorize_path\<close>.\<close>

definition categorize_path :: "finder \<Rightarrow> filesystem \<Rightarrow> string \<Rightarrow> py_error + kind" where
  "categorize_path self fs path_str =
     except_OSError
       (case os_stat fs path_str of
          None \<Rightarrow> Inl OSError
        | Some st \<Rightarrow>
            if st_mode st = S_IFREG then categorize_file self fs path_str
            else if st_mode st = S_IFDIR then Inr (categorize_directory self fs path_str)
            else Inr Skip)
       Unreadable"

text \<open>
  \<^verbatim>\<open>Finder.traverse\<close> is a recursive generator. Its run is the list of pairs it yields
  together with how the run ends: \<open>Done\<close> when the generator is exhausted, \<open>Raised e\<close>
  when an exception escapes after the pairs yielded so far, and \<open>OutOfFuel\<close> when the
  nesting of recursive calls exceeds the given bound (each nested call of \<^verbatim>\<open>traverse\<close>
  takes one unit). \<open>sorted(basenames)\<close> orders the names by their code points, which is
  \<open>sort_key fsdecode\<close>. \<open>traverse_loop\<close> is the loop over the sorted basenames,
  \<open>traverse_step\<close> is its body for one basename, and \<open>rec\<close> is the recursive call.
\<close>

datatype outcome = Done | Raised py_error | OutOfFuel

type_synonym run = "(string \<times> kind) list \<times> outcome"

definition traverse_step ::
  "(string \<Rightarrow> run) \<Rightarrow> finder \<Rightarrow> filesystem \<Rightarrow> string \<Rightarrow> string \<Rightarrow> run" where
  "traverse_step rec self fs startpath basename =
     (let path = os_path_join startpath basename in
      case categorize_path self fs path of
        Inl e \<Rightarrow> ([], Raised e)
      | Inr kind \<Rightarrow>
          if kind \<in> {Binary, Text, Gzip} then ([(path, kind)], Done)
          else if kind = Directory \<and> \<not> skip_sub_dirs self then rec path
          else ([], Done))"

fun traverse_loop ::
  "(string \<Rightarrow> run) \<Rightarrow> finder \<Rightarrow> filesystem \<Rightarrow> string \<Rightarrow> string list \<Rightarrow> run" where
  "traverse_loop rec self fs startpath [] = ([], Done)"
| "traverse_loop rec self fs startpath (basename # rest) =
     (let step = traverse_step rec self fs startpath basename
      in if snd step = Done
         then (let more = traverse_loop rec self fs startpath rest
               in (fst step @ fst more, snd more))
         else step)"

primrec traverse :: "nat \<Rightarrow> finder \<Rightarrow> filesystem \<Rightarrow> string \<Rightarrow> run" where
  "traverse 0 self fs startpath = ([], OutOfFuel)"
| "traverse (Suc n) self fs startpath =
     (case categorize_path self fs startpath of
        Inl e \<Rightarrow> ([], Raised e)
      | Inr kind \<Rightarrow>
          if kind \<in> {Binary, Text, Gzip} then ([(startpath, kind)], Done)
          else if kind = Directory then
            (case listdir fs startpath of
               None \<Rightarrow> ([], Done)
             | Some basenames \<Rightarrow>
                 traverse_loop (traverse n self fs) self fs startpath
                   (sort_key fsdecode basenames))
          else ([], Done))"

section \<open>Paths below a start path\<close>

text \<open>
  Notions used to state where a traversal goes. \<open>walk d bs\<close> is the path obtained from
  \<open>d\<close> by joining the basenames \<open>bs\<close> one after the other, as the traversal builds its
  paths. \<open>listed fs d bs\<close> says that each basename of the chain is in the listing of the
  directory reached before it, and \<open>descent self fs d bs\<close> says moreover that each of
  these directories is classified \<^verbatim>\<open>directory\<close>. \<open>plain_names fs\<close> says that directory
  listings hold file names: not empty and without a separator, as \<^verbatim>\<open>os.listdir\<close> returns
  them.
\<close>

definition walk :: "string \<Rightarrow> string list \<Rightarrow> string" where
  "walk d bs = foldl os_path_join d bs"

fun listed :: "filesystem \<Rightarrow> string \<Rightarrow> string list \<Rightarrow> bool" where
  "listed fs d [] = True"
| "listed fs d (b # bs) =
     ((case listdir fs d of None \<Rightarrow> False | Some names \<Rightarrow> b \<in> set names)
      \<and> listed fs (os_path_join d b) bs)"

fun descent :: "finder \<Rightarrow> filesystem \<Rightarrow> string \<Rightarrow> string list \<Rightarrow> bool" where
  "descent self fs d [] = True"
| "descent self fs d (b # bs) =
     (categorize_path self fs d = Inr Directory
      \<and> (case listdir fs d of None \<Rightarrow> False | Some names \<Rightarrow> b \<in> set names)
      \<and> descent self fs (os_path_join d b) bs)"

definition plain :: "string \<Rightarrow> bool" where
  "plain b \<longleftrightarrow> b \<noteq> [] \<and> CHR ''/'' \<notin> set b"

definition plain_names :: "filesystem \<Rightarrow> bool" where
  "plain_names fs \<longleftrightarrow> (\<forall>d names. listdir fs d = Some names \<longrightarrow> list_all plain names)"

section \<open>The Grepper object\<close>

text \<open>
  A compiled pattern is represented by its \<^verbatim>\<open>search\<close> predicate: \<open>regex\<close> on path
  strings, \<open>regex_m\<close> (the multi-line variant) on byte strings.
\<close>

record grepper =
  regex :: "string \<Rightarrow> bool"
  regex_m :: "byte list \<Rightarrow> bool"
  search_file_contents :: bool

text \<open>The dictionary \<^verbatim>\<open>_openers = dict(text=open, gzip=gzip.open)\<close>.\<close>

definition openers :: "filesystem \<Rightarrow> kind \<Rightarrow> (string \<Rightarrow> fileobj option) option" where
  "openers fs k =
     (if k = Text then Some (open_rb fs) else if k = Gzip then Some (gzip_open fs) else None)"

text \<open>
  \<^verbatim>\<open>mmap.mmap(fp.fileno(), 0, access=ACCESS_READ)\<close>: the bytes of the file behind the
  descriptor; mapping an empty file raises \<^verbatim>\<open>ValueError\<close>.
\<close>

definition mmap_file :: "filesystem \<Rightarrow> string \<Rightarrow> py_error + byte list" where
  "mmap_file fs filename =
     (case open_rb fs filename of
        None \<Rightarrow> Inl OSError
      | Some f \<Rightarrow>
          (case read f (- 1) of
             Inl e \<Rightarrow> Inl e
           | Inr m \<Rightarrow> if m = [] then Inl ValueError else Inr m))"

text \<open>
  \<^verbatim>\<open>Grepper._grep_contents\<close>. For \<^verbatim>\<open>gzip\<close> the mapped bytes are decompressed in full,
  which is a full read of the file object that \<^verbatim>\<open>gzip.open\<close> gave. The last branch is
  \<^verbatim>\<open>raise Exception("Unsupported file type")\<close>.
\<close>

definition grep_contents ::
  "grepper \<Rightarrow> filesystem \<Rightarrow> string \<Rightarrow> fileobj \<Rightarrow> kind \<Rightarrow> py_error + bool" where
  "grep_contents self fs filename fp k =
     (case mmap_file fs filename of
        Inl e \<Rightarrow> Inl e
      | Inr m \<Rightarrow>
          if k = Text then Inr (regex_m self m)
          else if k = Gzip then
            (case read fp (- 1) of
               Inl e \<Rightarrow> Inl e
             | Inr contents \<Rightarrow> Inr (regex_m self contents))
          else Inl UnsupportedFileType)"

text \<open>
  \<^verbatim>\<open>Grepper.do_grep\<close>. When the dictionary lookup or the open raises, \<^verbatim>\<open>f\<close> is unbound
  and the \<^verbatim>\<open>finally\<close> clause \<^verbatim>\<open>f.close()\<close> raises \<^verbatim>\<open>UnboundLocalError\<close> in its place.
\<close>

definition do_grep :: "grepper \<Rightarrow> filesystem \<Rightarrow> string \<Rightarrow> kind \<Rightarrow> py_error + bool" where
  "do_grep self fs filename k =
     (case os_stat fs filename of
        None \<Rightarrow> Inl OSError
      | Some st \<Rightarrow>
          if st_size st \<noteq> 0 then
            (if search_file_contents self then
               (case openers fs k of
                  None \<Rightarrow> Inl UnboundLocalError
                | Some opener \<Rightarrow>
                    (case opener filename of
                       None \<Rightarrow> Inl UnboundLocalError
                     | Some f \<Rightarrow>
                         (case grep_contents self fs filename f k of
                            Inl e \<Rightarrow> Inl e
                          | Inr found \<Rightarrow> if found then Inr True else Inr False)))
             else (if regex self filename then Inr True else Inr False))
          else Inr False)"

section \<open>A small file system for concrete runs\<close>

text \<open>
  The tree \<^verbatim>\<open>d\<close> holds a text file, a binary file, a gzip file whose stream decompresses
  to \<^verbatim>\<open>secret\<close>, an empty file, a subdirectory and a hidden directory \<^verbatim>\<open>.git\<close> that is
  a symbolic link. Outside the tree, \<^verbatim>\<open>bad.gz\<close> starts with the gzip magic number and
  has a corrupt stream, and every read of \<^verbatim>\<open>io.txt\<close> fails. Directory listings are
  given unsorted.
\<close>

definition demo_stat :: "(string \<times> stat_result) list" where
  "demo_stat =
     [(''d'', \<lparr>st_mode = S_IFDIR, st_size = 4096\<rparr>),
      (''d/sub'', \<lparr>st_mode = S_IFDIR, st_size = 4096\<rparr>),
      (''d/c.gz'', \<lparr>st_mode = S_IFREG, st_size = 3\<rparr>),
      (''d/b.bin'', \<lparr>st_mode = S_IFREG, st_size = 3\<rparr>),
      (''d/a.txt'', \<lparr>st_mode = S_IFREG, st_size = 5\<rparr>),
      (''d/.git'', \<lparr>st_mode = S_IFDIR, st_size = 4096\<rparr>),
      (''d/empty'', \<lparr>st_mode = S_IFREG, st_size = 0\<rparr>),
      (''d/sub/z.txt'', \<lparr>st_mode = S_IFREG, st_size = 3\<rparr>),
      (''d/sub/y.txt'', \<lparr>st_mode = S_IFREG, st_size = 2\<rparr>),
      (''d/.git/config'', \<lparr>st_mode = S_IFREG, st_size = 1\<rparr>),
      (''d/.git/hooks'', \<lparr>st_mode = S_IFDIR, st_size = 4096\<rparr>),
      (''d/.git/hooks/pre.txt'', \<lparr>st_mode = S_IFREG, st_size = 2\<rparr>),
      (''bad.gz'', \<lparr>st_mode = S_IFREG, st_size = 3\<rparr>),
      (''io.txt'', \<lparr>st_mode = S_IFREG, st_size = 7\<rparr>)]"

definition demo_files :: "(string \<times> fileobj) list" where
  "demo_files =
     [(''d/c.gz'', Stream [0x1F, 0x8B, 0x08]),
      (''d/b.bin'', Stream [0x00, 0x01, 0x02]),
      (''d/a.txt'', Stream [0x68, 0x65, 0x6C, 0x6C, 0x6F]),
      (''d/empty'', Stream []),
      (''d/sub/z.txt'', Stream [0x7F, 0x80, 0xFF]),
      (''d/sub/y.txt'', Stream [0x68, 0x69]),
      (''d/.git/config'', Stream [0x78]),
      (''d/.git/hooks/pre.txt'', Stream [0x68, 0x69]),
      (''bad.gz'', Stream [0x1F, 0x8B, 0x00]),
      (''io.txt'', Broken OSError)]"

definition demo_gzip :: "(string \<times> fileobj) list" where
  "demo_gzip =
     [(''d/c.gz'', Stream [0x73, 0x65, 0x63, 0x72, 0x65, 0x74]),
      (''bad.gz'', Broken GzipError)]"

definition demo_dirs :: "(string \<times> string list) list" where
  "demo_dirs =
     [(''d'', [''sub'', ''c.gz'', ''b.bin'', ''a.txt'', ''.git'', ''empty'']),
      (''d/sub'', [''z.txt'', ''y.txt'']),
      (''d/.git'', [''hooks'', ''config'']),
      (''d/.git/hooks'', [''pre.txt''])]"

definition demo_fs :: filesystem where
  "demo_fs =
     \<lparr> os_stat = map_of demo_stat,
       islink = (\<lambda>p. p = ''d/.git''),
       open_rb = map_of demo_files,
       gzip_open = map_of demo_gzip,
       listdir = map_of demo_dirs \<rparr>"

text \<open>
  A directory \<^verbatim>\<open>u\<close> with two text files whose stored names are the single byte \<open>0x80\<close>,
  which is not valid UTF-8, and the two bytes \<open>0xC3 0xA9\<close>, the UTF-8 form of the letter
  e with an acute accent.
\<close>

definition utf_fs :: filesystem where
  "utf_fs =
     \<lparr> os_stat = map_of
         [(''u'', \<lparr>st_mode = S_IFDIR, st_size = 4096\<rparr>),
          ([CHR ''u'', CHR ''/'', CHR 0x80], \<lparr>st_mode = S_IFREG, st_size = 1\<rparr>),
          ([CHR ''u'', CHR ''/'', CHR 0xC3, CHR 0xA9], \<lparr>st_mode = S_IFREG, st_size = 1\<rparr>)],
       islink = (\<lambda>p. False),
       open_rb = map_of
         [([CHR ''u'', CHR ''/'', CHR 0x80], Stream [0x68]),
          ([CHR ''u'', CHR ''/'', CHR 0xC3, CHR 0xA9], Stream [0x68])],
       gzip_open = (\<lambda>p. None),
       listdir = map_of [(''u'', [[CHR 0x80], [CHR 0xC3, CHR 0xA9]])] \<rparr>"

text \<open>\<^verbatim>\<open>Finder()\<close> with the default arguments of the constructor.\<close>

definition default_finder :: finder where
  "default_finder = Finder True False False {} [] True True 4096"

text \<open>A finder that recurses into subdirectories and skips hidden directories.\<close>

definition demo_finder :: finder where
  "demo_finder = Finder False True False {} [] True True 4096"

section \<open>Properties\<close>

subsection \<open>The text allow-set\<close>

lemma byte_unat_less: "unat (b :: byte) < 256"
  using unsigned_less [of b, where 'a = nat] by simp

lemma byte_of_nat_ge_32:
  assumes "32 \<le> n" "n < 256"
  shows "(0x20 :: byte) \<le> of_nat n"
proof -
  from assms have "unat (of_nat n :: byte) = n" by (simp add: unat_of_nat)
  with \<open>32 \<le> n\<close> show ?thesis by (simp add: word_le_nat_alt)
qed

lemma byte_ge_32_in_range:
  assumes "(0x20 :: byte) \<le> b"
  shows "b \<in> of_nat ` {32 ..< 256}"
proof -
  have "unat b < 256" by (rule byte_unat_less)
  moreover from assms have "32 \<le> unat b" by (simp add: word_le_nat_alt)
  ultimately have "unat b \<in> {32 ..< 256}" by simp
  moreover have "b = of_nat (unat b)" by simp
  ultimately show ?thesis by (rule rev_image_eqI)
qed

lemma in_TEXTCHARS:
  "b \<in> set TEXTCHARS \<longleftrightarrow> b \<in> {7, 8, 9, 10, 12, 13, 27} \<or> 0x20 \<le> b"
proof -
  have "set TEXTCHARS = of_nat ` set [7, 8, 9, 10, 12, 13, 27] \<union> of_nat ` {32 ..< 256}"
    unfolding TEXTCHARS_def by (simp only: map_append set_append set_map set_upt)
  moreover have "of_nat ` set [7, 8, 9, 10, 12, 13, 27::nat] = {7, 8, 9, 10, 12, 13, 27 :: byte}"
    by simp
  moreover have "b \<in> of_nat ` {32 ..< 256} \<longleftrightarrow> 0x20 \<le> b"
    using byte_of_nat_ge_32 byte_ge_32_in_range by auto
  ultimately show ?thesis by blast
qed

lemma ALLBYTES_nth: "ALLBYTES ! unat b = b"
proof -
  have less: "unat b < 256" by (rule byte_unat_less)
  then have "[0 ..< 256] ! unat b = unat b" by (simp only: nth_upt add_0)
  moreover from less have "map of_nat [0 ..< 256] ! unat b = (of_nat ([0 ..< 256] ! unat b) :: byte)"
    by (simp only: nth_map length_upt diff_zero)
  ultimately show ?thesis unfolding ALLBYTES_def by simp
qed

lemma translate_ALLBYTES:
  "translate ALLBYTES delete bs = filter (\<lambda>b. b \<notin> set delete) bs"
  by (simp add: translate_def ALLBYTES_nth)

lemma byte_le_255: "(b :: byte) \<le> 0xFF"
proof -
  have "unat b < 256" by (rule byte_unat_less)
  then show ?thesis by (simp add: word_le_nat_alt)
qed

subsection \<open>The binary test\<close>

lemma is_binary_file_Stream:
  assumes "- 1 \<le> binary_bytes self" and "binary_bytes self < 2 ^ 63"
  shows "is_binary_file self (Stream bs) =
     Inr (\<exists>b \<in> set (if binary_bytes self = - 1 then bs else take (nat (binary_bytes self)) bs).
            b \<notin> {7, 8, 9, 10, 12, 13, 27} \<and> b < 0x20)"
  using assms
  by (auto simp add: is_binary_file_def translate_ALLBYTES filter_empty_conv in_TEXTCHARS
      simp del: insert_iff)

lemma is_binary_file_Broken: "is_binary_file self (Broken e) = Inl UnboundLocalError"
  by (simp add: is_binary_file_def)

lemma is_binary_file_read:
  assumes "read f (binary_bytes self) = Inr buf"
  shows "is_binary_file self f =
           Inr (\<exists>b \<in> set buf. \<not> (b \<in> {7, 8, 9, 10, 12, 13, 27} \<or> (0x20 \<le> b \<and> b \<le> 0xFF)))"
  using assms
  by (auto simp add: is_binary_file_def translate_ALLBYTES filter_empty_conv in_TEXTCHARS
      byte_le_255 simp del: insert_iff)

lemma categorize_file_text_iff:
  assumes "open_rb fs p = Some f" and "read f (binary_bytes self) = Inr buf"
    and "categorize_file self fs p \<notin> {Inr Skip, Inr Link}"
  shows "categorize_file self fs p = Inr Text \<longleftrightarrow>
           (\<forall>b \<in> set buf. b \<in> {7, 8, 9, 10, 12, 13, 27} \<or> (0x20 \<le> b \<and> b \<le> 0xFF))"
  using assms(3)
  by (auto simp add: categorize_file_def Let_def except_OSError_def assms(1)
        is_binary_file_read [OF assms(2)]
      split: if_splits sum.splits simp del: insert_iff)

lemmas demo_defs = demo_fs_def demo_stat_def demo_files_def demo_gzip_def demo_dirs_def

lemmas path_defs = os_path_split_def os_path_join_def startswith_def endswith_def
  splitext_def normcase_def Let_def

lemmas categorize_defs = categorize_path_def categorize_file_def categorize_directory_def
  except_OSError_def is_gzipped_text_def GZIP_MAGIC_def traverse_step_def

text \<open>
  C1. Whenever the probe read of \<^verbatim>\<open>_is_binary_file\<close> delivers a buffer, the check answers
  "binary" exactly when the buffer holds a byte outside the allow-set
  \<open>{7,8,9,10,12,13,27} \<union> [0x20,0xFF]\<close>. For a file that \<^verbatim>\<open>categorize_file\<close> does not pass
  over by its name or as a link, the classification is \<^verbatim>\<open>text\<close> exactly when every
  byte of the probe buffer is in the allow-set. In particular a buffer of bytes from
  \<open>0x7F\<close> to \<open>0xFF\<close> is not binary.
\<close>

theorem binary_test_allow_set:
  "(read f (binary_bytes self) = Inr buf \<longrightarrow>
      is_binary_file self f =
        Inr (\<exists>b \<in> set buf. \<not> (b \<in> {7, 8, 9, 10, 12, 13, 27} \<or> (0x20 \<le> b \<and> b \<le> 0xFF))))
   \<and> (open_rb fs p = Some f \<and> read f (binary_bytes self) = Inr buf
        \<and> categorize_file self fs p \<notin> {Inr Skip, Inr Link} \<longrightarrow>
        (categorize_file self fs p = Inr Text \<longleftrightarrow>
           (\<forall>b \<in> set buf. b \<in> {7, 8, 9, 10, 12, 13, 27} \<or> (0x20 \<le> b \<and> b \<le> 0xFF))))
   \<and> (read f (binary_bytes self) = Inr buf \<and> (\<forall>b \<in> set buf. 0x7F \<le> b) \<longrightarrow>
        is_binary_file self f = Inr False)"
proof (intro conjI impI)
  assume "read f (binary_bytes self) = Inr buf"
  then show "is_binary_file self f =
        Inr (\<exists>b \<in> set buf. \<not> (b \<in> {7, 8, 9, 10, 12, 13, 27} \<or> (0x20 \<le> b \<and> b \<le> 0xFF)))"
    by (rule is_binary_file_read)
next
  assume "open_rb fs p = Some f \<and> read f (binary_bytes self) = Inr buf
        \<and> categorize_file self fs p \<notin> {Inr Skip, Inr Link}"
  then show "categorize_file self fs p = Inr Text \<longleftrightarrow>
           (\<forall>b \<in> set buf. b \<in> {7, 8, 9, 10, 12, 13, 27} \<or> (0x20 \<le> b \<and> b \<le> 0xFF))"
    using categorize_file_text_iff by blast
next
  assume a: "read f (binary_bytes self) = Inr buf \<and> (\<forall>b \<in> set buf. 0x7F \<le> b)"
  have "0x20 \<le> b" if "0x7F \<le> b" for b :: byte
    using that by (simp add: word_le_nat_alt)
  with a show "is_binary_file self f = Inr False"
    by (simp add: is_binary_file_read byte_le_255)
qed

theorem binary_test_allow_set_witness:
  "open_rb demo_fs ''d/sub/z.txt'' = Some (Stream [0x7F, 0x80, 0xFF])
   \<and> read (Stream [0x7F, 0x80, 0xFF]) (binary_bytes default_finder) = Inr [0x7F, 0x80, 0xFF]
   \<and> categorize_file default_finder demo_fs ''d/sub/z.txt'' \<notin> {Inr Skip, Inr Link}
   \<and> is_binary_file default_finder (Stream [0x7F, 0x80, 0xFF]) = Inr False
   \<and> categorize_file default_finder demo_fs ''d/sub/z.txt'' = Inr Text"
proof -
  have "categorize_file default_finder demo_fs ''d/sub/z.txt'' = Inr Text"
    by (simp add: categorize_defs demo_defs default_finder_def Finder_def path_defs
        is_binary_file_Stream)
  then show ?thesis
    using binary_test_allow_set [of "Stream [0x7F, 0x80, 0xFF]" default_finder
        "[0x7F, 0x80, 0xFF]" demo_fs "''d/sub/z.txt''"]
    by (simp add: demo_defs default_finder_def Finder_def)
qed

subsection \<open>A failing probe read\<close>

text \<open>
  C5. The claim is that a failing probe read makes the binary check answer "binary".
  The code does not: with a file object whose read raises, \<^verbatim>\<open>_is_binary_file\<close> raises
  \<^verbatim>\<open>UnboundLocalError\<close>, and the exception escapes \<^verbatim>\<open>categorize_file\<close>,
  \<^verbatim>\<open>categorize_path\<close> and \<^verbatim>\<open>traverse\<close>, none of which handles it. The run below is
  on \<^verbatim>\<open>io.txt\<close>, a regular file that opens and whose reads fail.
\<close>

theorem probe_read_failure_raises:
  "is_binary_file self (Broken e) = Inl UnboundLocalError
   \<and> open_rb demo_fs ''io.txt'' = Some (Broken OSError)
   \<and> categorize_file default_finder demo_fs ''io.txt'' = Inl UnboundLocalError
   \<and> categorize_path default_finder demo_fs ''io.txt'' = Inl UnboundLocalError
   \<and> traverse 1 default_finder demo_fs ''io.txt'' = ([], Raised UnboundLocalError)"
  by (simp add: categorize_defs demo_defs default_finder_def Finder_def path_defs
        is_binary_file_Broken)

subsection \<open>Files that start with the gzip magic number\<close>

text \<open>
  Where the decompressed stream can be read, a file that starts with \<open>0x1F 0x8B\<close> and is
  not passed over by its name or as a link is \<^verbatim>\<open>gzip\<close> when the decompressed probe is
  not binary and \<^verbatim>\<open>binary\<close> when it is (the probe size must be one that \<^verbatim>\<open>read\<close>
  accepts and not zero: with zero the raw probe is empty and the file is \<^verbatim>\<open>text\<close>).
\<close>

lemma categorize_file_cases:
  "categorize_file self fs p = Inr Skip \<or> categorize_file self fs p = Inr Link \<or>
   categorize_file self fs p =
     except_OSError
       (case open_rb fs p of
          None \<Rightarrow> Inl OSError
        | Some f \<Rightarrow>
            (case is_binary_file self f of
               Inl e \<Rightarrow> Inl e
             | Inr is_binary \<Rightarrow>
                 if is_binary then
                   (case is_gzipped_text self fs p of
                      Inl e \<Rightarrow> Inl e
                    | Inr is_gz \<Rightarrow> if is_gz then Inr Gzip else Inr Binary)
                 else Inr Text))
       Unreadable"
  by (simp add: categorize_file_def Let_def)

lemma magic_is_binary:
  assumes "binary_bytes self \<noteq> 0" and "- 1 \<le> binary_bytes self"
    and "binary_bytes self < 2 ^ 63"
  shows "is_binary_file self (Stream (0x1F # 0x8B # rest)) = Inr True"
proof -
  let ?bs = "0x1F # 0x8B # rest"
  let ?buf = "if binary_bytes self = - 1 then ?bs else take (nat (binary_bytes self)) ?bs"
  have "0x1F \<in> set ?buf"
  proof (cases "binary_bytes self = - 1")
    case True
    then show ?thesis by simp
  next
    case False
    with assms obtain k where "nat (binary_bytes self) = Suc k"
      by (cases "nat (binary_bytes self)") auto
    with False show ?thesis by simp
  qed
  moreover have "(0x1F :: byte) \<notin> {7, 8, 9, 10, 12, 13, 27} \<and> (0x1F :: byte) < 0x20"
    by simp
  ultimately have "\<exists>b \<in> set ?buf. b \<notin> {7, 8, 9, 10, 12, 13, 27} \<and> b < 0x20"
    by (rule rev_bexI)
  then show ?thesis
    by (simp only: is_binary_file_Stream [OF assms(2,3)])
qed

lemma magic_is_gzipped_text:
  assumes "open_rb fs p = Some (Stream (0x1F # 0x8B # rest))"
    and "gzip_open fs p = Some g"
    and "is_binary_file self g = Inr b"
  shows "is_gzipped_text self fs p = Inr (\<not> b)"
  using assms by (simp add: is_gzipped_text_def GZIP_MAGIC_def)

lemma gzip_magic_classification:
  assumes "categorize_file self fs p \<notin> {Inr Skip, Inr Link}"
    and "open_rb fs p = Some (Stream (0x1F # 0x8B # rest))"
    and "binary_bytes self \<noteq> 0"
    and "gzip_open fs p = Some g"
    and "is_binary_file self g = Inr b"
    and "- 1 \<le> binary_bytes self" and "binary_bytes self < 2 ^ 63"
  shows "categorize_file self fs p = Inr (if b then Binary else Gzip)"
proof -
  have "is_gzipped_text self fs p = Inr (\<not> b)"
    using assms(2,4,5) by (rule magic_is_gzipped_text)
  moreover have "is_binary_file self (Stream (0x1F # 0x8B # rest)) = Inr True"
    using assms(3,6,7) by (rule magic_is_binary)
  ultimately show ?thesis
    using categorize_file_cases [of self fs p] assms(1,2)
    by (simp add: except_OSError_def)
qed

text \<open>
  C2. The claim's third part is that a failing decompression is absorbed and the file is
  classified \<^verbatim>\<open>binary\<close>. The code does not do that: \<^verbatim>\<open>bad.gz\<close> starts with the magic
  number, the read of its gzip stream raises, \<^verbatim>\<open>_is_binary_file\<close> turns that into
  \<^verbatim>\<open>UnboundLocalError\<close>, which the handler \<^verbatim>\<open>except IOError\<close> of \<^verbatim>\<open>_is_gzipped_text\<close> does
  not catch, and the exception escapes the classification and the traversal.
\<close>

theorem corrupt_gzip_raises:
  "open_rb demo_fs ''bad.gz'' = Some (Stream [0x1F, 0x8B, 0x00])
   \<and> gzip_open demo_fs ''bad.gz'' = Some (Broken GzipError)
   \<and> is_gzipped_text default_finder demo_fs ''bad.gz'' = Inl UnboundLocalError
   \<and> categorize_file default_finder demo_fs ''bad.gz'' = Inl UnboundLocalError
   \<and> categorize_path default_finder demo_fs ''bad.gz'' = Inl UnboundLocalError
   \<and> traverse 1 default_finder demo_fs ''bad.gz'' = ([], Raised UnboundLocalError)"
  by (simp add: categorize_defs demo_defs default_finder_def Finder_def path_defs
        is_binary_file_Broken is_binary_file_Stream)

subsection \<open>Order of the directory checks\<close>



subsection \<open>The matcher\<close>

text \<open>
  C4. For a file whose size is zero, \<^verbatim>\<open>do_grep\<close> returns \<^verbatim>\<open>False\<close>, whatever the pattern,
  the kind and the mode (name matching or content matching).
\<close>

theorem do_grep_empty_file:
  "os_stat fs filename = Some st \<and> st_size st = 0 \<longrightarrow> do_grep self fs filename k = Inr False"
  by (simp add: do_grep_def)

theorem do_grep_empty_file_witness:
  "os_stat demo_fs ''d/empty'' = Some \<lparr>st_mode = S_IFREG, st_size = 0\<rparr>
   \<and> st_size \<lparr>st_mode = S_IFREG, st_size = 0\<rparr> = 0
   \<and> do_grep \<lparr>regex = (\<lambda>s. True), regex_m = (\<lambda>b. True), search_file_contents = False\<rparr>
        demo_fs ''d/empty'' Text = Inr False
   \<and> do_grep \<lparr>regex = (\<lambda>s. True), regex_m = (\<lambda>b. True), search_file_contents = True\<rparr>
        demo_fs ''d/empty'' Text = Inr False"
  using do_grep_empty_file [of demo_fs "''d/empty''" "\<lparr>st_mode = S_IFREG, st_size = 0\<rparr>"
      "\<lparr>regex = (\<lambda>s. True), regex_m = (\<lambda>b. True), search_file_contents = False\<rparr>" Text]
    do_grep_empty_file [of demo_fs "''d/empty''" "\<lparr>st_mode = S_IFREG, st_size = 0\<rparr>"
      "\<lparr>regex = (\<lambda>s. True), regex_m = (\<lambda>b. True), search_file_contents = True\<rparr>" Text]
  by (simp add: demo_defs)

text \<open>
  C10. \<^verbatim>\<open>do_grep\<close> stats the file first: when the stat fails, the \<^verbatim>\<open>OSError\<close> propagates
  in name-matching mode as in content-matching mode, for every pattern and kind.
\<close>

theorem do_grep_stat_failure:
  "os_stat fs filename = None \<longrightarrow> do_grep self fs filename k = Inl OSError"
  by (simp add: do_grep_def)

theorem do_grep_stat_failure_witness:
  "os_stat demo_fs ''d/missing'' = None
   \<and> do_grep \<lparr>regex = (\<lambda>s. True), regex_m = (\<lambda>b. True), search_file_contents = False\<rparr>
        demo_fs ''d/missing'' Text = Inl OSError
   \<and> do_grep \<lparr>regex = (\<lambda>s. True), regex_m = (\<lambda>b. True), search_file_contents = True\<rparr>
        demo_fs ''d/missing'' Text = Inl OSError"
  using do_grep_stat_failure [of demo_fs "''d/missing''"
      "\<lparr>regex = (\<lambda>s. True), regex_m = (\<lambda>b. True), search_file_contents = False\<rparr>" Text]
    do_grep_stat_failure [of demo_fs "''d/missing''"
      "\<lparr>regex = (\<lambda>s. True), regex_m = (\<lambda>b. True), search_file_contents = True\<rparr>" Text]
  by (simp add: demo_defs)

subsection \<open>Path functions\<close>

lemma rfind_notin: "c \<notin> set xs \<Longrightarrow> rfind xs c = - 1"
  by (induction xs) (auto simp add: Let_def)

lemma rfind_bounds: "- 1 \<le> rfind xs c \<and> rfind xs c < int (length xs)"
  by (induction xs) (auto simp add: Let_def)

lemma rfind_in: "c \<in> set xs \<Longrightarrow> 0 \<le> rfind xs c"
proof (induction xs)
  case Nil
  then show ?case by simp
next
  case (Cons x xs)
  then show ?case using rfind_bounds [of xs c] by (auto simp add: Let_def)
qed

lemma rfind_append_notin: "c \<notin> set ys \<Longrightarrow> rfind (xs @ ys) c = rfind xs c"
  by (induction xs) (auto simp add: Let_def rfind_notin)

lemma rfind_append_in: "c \<in> set ys \<Longrightarrow> rfind (xs @ ys) c = int (length xs) + rfind ys c"
proof (induction xs)
  case Nil
  then show ?case by simp
next
  case (Cons x xs)
  then show ?case using rfind_in [of c ys] by (auto simp add: Let_def)
qed

lemma rfind_last: "d = [] \<or> last d = c \<Longrightarrow> rfind d c = int (length d) - 1"
proof (cases d rule: rev_cases)
  case Nil
  then show ?thesis by simp
next
  case (snoc ys y)
  assume "d = [] \<or> last d = c"
  with snoc have "y = c" by simp
  with snoc show ?thesis using rfind_append_in [of c "[c]" ys] by simp
qed

lemma basename_append:
  assumes "CHR ''/'' \<notin> set b" and "d = [] \<or> last d = CHR ''/''"
  shows "snd (os_path_split (d @ b)) = b"
  using assms by (simp add: os_path_split_def Let_def rfind_append_notin rfind_last)

lemma os_path_join_append:
  assumes "CHR ''/'' \<notin> set b"
  shows "\<exists>d'. os_path_join d b = d' @ b \<and> (d' = [] \<or> last d' = CHR ''/'') \<and> (d' = d \<or> d' = d @ ''/'')"
proof -
  from assms have "\<not> startswith b ''/''"
    by (cases b) (auto simp add: startswith_def)
  moreover have "endswith d ''/'' \<longleftrightarrow> d \<noteq> [] \<and> last d = CHR ''/''"
    by (cases d rule: rev_cases) (auto simp add: endswith_def)
  ultimately show ?thesis
    by (cases "d = [] \<or> endswith d ''/''") (auto simp add: os_path_join_def)
qed

lemma basename_join:
  assumes "CHR ''/'' \<notin> set b"
  shows "snd (os_path_split (os_path_join d b)) = b"
  using os_path_join_append [OF assms, of d] basename_append [OF assms] by metis

lemma splitext_loop_append:
  "splitext_loop (d @ name) (length d + i) (length d + j) = splitext_loop name i j"
proof (induction name i j rule: splitext_loop.induct)
  case (1 p fi di)
  show ?case
  proof (cases "fi < di")
    case True
    show ?thesis
    proof (cases "take 1 (drop fi p) \<noteq> ''.''")
      case t: True
      with True show ?thesis
        by (subst splitext_loop.simps, subst (2) splitext_loop.simps) simp
    next
      case False
      with True 1 have "splitext_loop (d @ p) (length d + (fi + 1)) (length d + di) = splitext_loop p (fi + 1) di"
        by simp
      with True False show ?thesis
        by (subst splitext_loop.simps, subst (2) splitext_loop.simps) (simp add: add.assoc)
    qed
  next
    case False
    then show ?thesis
      by (subst splitext_loop.simps, subst (2) splitext_loop.simps) simp
  qed
qed

lemma splitext_append:
  assumes "CHR ''/'' \<notin> set name" and "d = [] \<or> last d = CHR ''/''"
  shows "splitext (d @ name) = (d @ fst (splitext name), snd (splitext name))"
proof -
  have sep: "rfind (d @ name) CHR ''/'' = int (length d) - 1"
    using assms by (simp add: rfind_append_notin rfind_last)
  have sep0: "rfind name CHR ''/'' = - 1"
    using assms by (simp add: rfind_notin)
  show ?thesis
  proof (cases "CHR ''.'' \<in> set name")
    case True
    define r where "r = nat (rfind name CHR ''.'')"
    have r: "rfind name CHR ''.'' = int r"
      using rfind_in [OF True] by (simp add: r_def)
    have dot: "rfind (d @ name) CHR ''.'' = int (length d + r)"
      using True by (simp add: rfind_append_in r)
    have loop: "splitext_loop (d @ name) (length d) (length d + r) = splitext_loop name 0 r"
      using splitext_loop_append [of d name 0 r] by simp
    show ?thesis
      unfolding splitext_def sep sep0 dot r Let_def
      by (simp add: loop nat_int_add del: splitext_loop.simps)
  next
    case False
    have "rfind (d @ name) CHR ''.'' = rfind d CHR ''.''"
      using False by (simp add: rfind_append_notin)
    moreover have "rfind d CHR ''.'' \<le> int (length d) - 1"
      using rfind_bounds [of d "CHR ''.''"] by simp
    moreover have "rfind name CHR ''.'' = - 1"
      using False by (simp add: rfind_notin)
    ultimately show ?thesis
      unfolding splitext_def sep sep0 Let_def
      by (simp del: splitext_loop.simps)
  qed
qed

lemma splitext_join:
  assumes "CHR ''/'' \<notin> set name"
  shows "snd (splitext (os_path_join d name)) = snd (splitext name)"
  using os_path_join_append [OF assms, of d] splitext_append [OF assms] by (metis snd_conv)



subsection \<open>Partition of the skip extensions\<close>

lemma fold_partition_ext:
  "fold partition_ext exts acc =
     (fst acc \<union> {ext \<in> set exts. snd (splitext (''foo.bar'' @ ext)) = ext},
      snd acc @ filter (\<lambda>ext. snd (splitext (''foo.bar'' @ ext)) \<noteq> ext) exts)"
proof (induction exts arbitrary: acc)
  case Nil
  then show ?case by simp
next
  case (Cons ext exts)
  show ?case
    by (simp only: fold_simps Cons.IH) (auto simp add: partition_ext_def)
qed

lemma Finder_skip_exts:
  "skip_exts_simple (Finder sub hdirs hfiles dirs exts ldirs lfiles n) =
     {ext \<in> set exts. snd (splitext (''foo.bar'' @ ext)) = ext}"
  "skip_exts_endswith (Finder sub hdirs hfiles dirs exts ldirs lfiles n) =
     filter (\<lambda>ext. snd (splitext (''foo.bar'' @ ext)) \<noteq> ext) exts"
  by (simp_all add: Finder_def Let_def fold_partition_ext)

lemma Finder_fields:
  "skip_sub_dirs (Finder sub hdirs hfiles dirs exts ldirs lfiles n) = sub"
  "skip_hidden_dirs (Finder sub hdirs hfiles dirs exts ldirs lfiles n) = hdirs"
  "skip_hidden_files (Finder sub hdirs hfiles dirs exts ldirs lfiles n) = hfiles"
  "skip_dirs (Finder sub hdirs hfiles dirs exts ldirs lfiles n) = dirs"
  "skip_symlink_dirs (Finder sub hdirs hfiles dirs exts ldirs lfiles n) = ldirs"
  "skip_symlink_files (Finder sub hdirs hfiles dirs exts ldirs lfiles n) = lfiles"
  "binary_bytes (Finder sub hdirs hfiles dirs exts ldirs lfiles n) = n"
  by (simp_all add: Finder_def Let_def)

lemma ext_gz: "snd (splitext ''foo.bar.gz'') = ''.gz''"
  by (simp add: splitext_def)

lemma ext_tar_gz: "snd (splitext ''foo.bar.tar.gz'') = ''.gz''"
  by (simp add: splitext_def)

lemma ext_c_gz: "snd (splitext (os_path_join d ''c.gz'')) = ''.gz''"
  by (subst splitext_join) (simp_all add: splitext_def)

lemma ext_x_tar_gz: "snd (splitext (os_path_join d ''x.tar.gz'')) = ''.gz''"
  by (subst splitext_join) (simp_all add: splitext_def)

lemma c_gz_not_tar_gz: "\<not> endswith (os_path_join d ''c.gz'') ''.tar.gz''"
proof -
  obtain d' where "os_path_join d ''c.gz'' = d' @ ''c.gz''" and "d' = [] \<or> last d' = CHR ''/''"
    using os_path_join_append [of "''c.gz''" d] by auto
  then show ?thesis
    by (cases d' rule: rev_cases) (auto simp add: endswith_def suffix_to_prefix)
qed

lemma x_tar_gz_endswith: "endswith (os_path_join d ''x.tar.gz'') ''.tar.gz''"
proof -
  obtain d' where "os_path_join d ''x.tar.gz'' = d' @ ''x.tar.gz''"
    using os_path_join_append [of "''x.tar.gz''" d] by auto
  then show ?thesis
    by (simp add: endswith_def suffix_to_prefix)
qed

lemma categorize_file_gz_skipped:
  assumes "\<not> (lfiles \<and> islink fs (os_path_join d ''c.gz''))"
  shows "categorize_file (Finder sub hdirs hfiles dirs [''.gz''] ldirs lfiles n) fs (os_path_join d ''c.gz'')
           = Inr Skip"
  using assms
  by (simp add: categorize_file_def Let_def normcase_def Finder_skip_exts Finder_fields ext_gz ext_c_gz
      basename_join startswith_def)

lemma categorize_file_tar_gz_skipped:
  assumes "\<not> (lfiles \<and> islink fs (os_path_join d ''x.tar.gz''))"
  shows "categorize_file (Finder sub hdirs hfiles dirs [''.tar.gz''] ldirs lfiles n) fs
           (os_path_join d ''x.tar.gz'') = Inr Skip"
  using assms
  by (simp add: categorize_file_def Let_def normcase_def Finder_skip_exts Finder_fields
      ext_tar_gz ext_x_tar_gz x_tar_gz_endswith basename_join startswith_def)

lemma is_binary_file_cong:
  "binary_bytes a = binary_bytes b \<Longrightarrow> is_binary_file a = is_binary_file b"
  by (rule ext) (simp add: is_binary_file_def)

lemma is_gzipped_text_cong:
  assumes "binary_bytes a = binary_bytes b"
  shows "is_gzipped_text a = is_gzipped_text b"
proof (rule ext, rule ext)
  fix fs p
  show "is_gzipped_text a fs p = is_gzipped_text b fs p"
    unfolding is_gzipped_text_def is_binary_file_cong [OF assms] by (rule refl)
qed

lemma categorize_file_tar_gz_unaffected:
  "categorize_file (Finder sub hdirs hfiles dirs [''.tar.gz''] ldirs lfiles n) fs (os_path_join d ''c.gz'')
     = categorize_file (Finder sub hdirs hfiles dirs [] ldirs lfiles n) fs (os_path_join d ''c.gz'')"
proof -
  let ?a = "Finder sub hdirs hfiles dirs [''.tar.gz''] ldirs lfiles n"
  let ?b = "Finder sub hdirs hfiles dirs [] ldirs lfiles n"
  have bb: "binary_bytes ?a = binary_bytes ?b" by (simp add: Finder_fields)
  show ?thesis
    unfolding categorize_file_def Let_def normcase_def
      is_binary_file_cong [OF bb] is_gzipped_text_cong [OF bb]
    by (simp add: Finder_skip_exts Finder_fields ext_tar_gz ext_c_gz c_gz_not_tar_gz)
qed

text \<open>
  C8. The constructor puts a configured extension into the exact set when
  \<^verbatim>\<open>splitext('foo.bar' + ext)[1] == ext\<close> and into the suffix list otherwise. With the
  skip extensions \<^verbatim>\<open>{".gz"}\<close> a file \<^verbatim>\<open>c.gz\<close> in any directory \<open>d\<close> is \<^verbatim>\<open>skip\<close>, whatever
  its contents (unless the link check, which comes first, answers \<^verbatim>\<open>link\<close>). With
  \<^verbatim>\<open>{".tar.gz"}\<close> the classification of \<^verbatim>\<open>c.gz\<close> is the one it has with no skip
  extension at all, and a file \<^verbatim>\<open>x.tar.gz\<close> is \<^verbatim>\<open>skip\<close>.
\<close>

theorem skip_exts_partition:
  "skip_exts_simple (Finder sub hdirs hfiles dirs exts ldirs lfiles n) =
     {ext \<in> set exts. snd (splitext (''foo.bar'' @ ext)) = ext}
   \<and> skip_exts_endswith (Finder sub hdirs hfiles dirs exts ldirs lfiles n) =
       filter (\<lambda>ext. snd (splitext (''foo.bar'' @ ext)) \<noteq> ext) exts
   \<and> (\<not> (lfiles \<and> islink fs (os_path_join d ''c.gz'')) \<longrightarrow>
        categorize_file (Finder sub hdirs hfiles dirs [''.gz''] ldirs lfiles n) fs (os_path_join d ''c.gz'')
          = Inr Skip)
   \<and> categorize_file (Finder sub hdirs hfiles dirs [''.tar.gz''] ldirs lfiles n) fs (os_path_join d ''c.gz'')
       = categorize_file (Finder sub hdirs hfiles dirs [] ldirs lfiles n) fs (os_path_join d ''c.gz'')
   \<and> (\<not> (lfiles \<and> islink fs (os_path_join d ''x.tar.gz'')) \<longrightarrow>
        categorize_file (Finder sub hdirs hfiles dirs [''.tar.gz''] ldirs lfiles n) fs
          (os_path_join d ''x.tar.gz'') = Inr Skip)"
  using Finder_skip_exts [of sub hdirs hfiles dirs exts ldirs lfiles n]
    categorize_file_gz_skipped [of lfiles fs d sub hdirs hfiles dirs ldirs n]
    categorize_file_tar_gz_unaffected [of sub hdirs hfiles dirs ldirs lfiles n fs d]
    categorize_file_tar_gz_skipped [of lfiles fs d sub hdirs hfiles dirs ldirs n]
  by blast

lemma demo_c_gz: "categorize_file (Finder True False False {} [] True True 4096) demo_fs ''d/c.gz'' = Inr Gzip"
  by (simp add: categorize_defs demo_defs Finder_def path_defs is_binary_file_Stream)

theorem skip_exts_partition_witness:
  "os_path_join ''d'' ''c.gz'' = ''d/c.gz''
   \<and> \<not> islink demo_fs ''d/c.gz'' \<and> \<not> islink demo_fs ''d/x.tar.gz''
   \<and> categorize_file (Finder True False False {} [] True True 4096) demo_fs ''d/c.gz'' = Inr Gzip
   \<and> categorize_file (Finder True False False {} [''.gz''] True True 4096) demo_fs ''d/c.gz''
        = Inr Skip
   \<and> categorize_file (Finder True False False {} [''.tar.gz''] True True 4096) demo_fs ''d/c.gz''
        = Inr Gzip
   \<and> categorize_file (Finder True False False {} [''.tar.gz''] True True 4096) demo_fs
        ''d/x.tar.gz'' = Inr Skip"
proof -
  have j1: "os_path_join ''d'' ''c.gz'' = ''d/c.gz''"
    by (simp add: os_path_join_def startswith_def endswith_def suffix_to_prefix)
  have j2: "os_path_join ''d'' ''x.tar.gz'' = ''d/x.tar.gz''"
    by (simp add: os_path_join_def startswith_def endswith_def suffix_to_prefix)
  have l: "\<not> islink demo_fs ''d/c.gz'' \<and> \<not> islink demo_fs ''d/x.tar.gz''"
    by (simp add: demo_fs_def)
  show ?thesis
    using skip_exts_partition [of True False False "{}" "[]" True True 4096 demo_fs "''d''"]
      demo_c_gz l
    unfolding j1 j2 by simp
qed

subsection \<open>Classification of directories and the loop of the traversal\<close>

lemma categorize_file_not_Directory: "categorize_file self fs p \<noteq> Inr Directory"
  using categorize_file_cases [of self fs p]
  by (auto simp add: except_OSError_def split: option.splits sum.splits if_splits)

lemma categorize_path_Directory:
  assumes "categorize_path self fs p = Inr Directory"
  shows "categorize_directory self fs p = Directory"
  using assms categorize_file_not_Directory [of self fs p]
  by (auto simp add: categorize_path_def except_OSError_def
      split: option.splits sum.splits if_splits)

lemma hidden_not_Directory:
  assumes "skip_hidden_dirs self"
    and "startswith (snd (os_path_split p)) ''.''"
    and "snd (os_path_split p) \<notin> {''.'', ''..''}"
  shows "categorize_path self fs p \<noteq> Inr Directory"
proof
  assume "categorize_path self fs p = Inr Directory"
  then have "categorize_directory self fs p = Directory"
    by (rule categorize_path_Directory)
  with assms show False
    by (simp add: categorize_directory_def Let_def)
qed

lemma traverse_step_yield:
  assumes "(p, k) \<in> set (fst (traverse_step rec self fs d b))"
  shows "(p = os_path_join d b \<and> k \<in> {Binary, Text, Gzip}
            \<and> categorize_path self fs (os_path_join d b) = Inr k)
         \<or> (categorize_path self fs (os_path_join d b) = Inr Directory
            \<and> \<not> skip_sub_dirs self \<and> (p, k) \<in> set (fst (rec (os_path_join d b))))"
  using assms
  by (auto simp add: traverse_step_def Let_def split: sum.splits if_splits)

lemma traverse_loop_yield:
  assumes "(p, k) \<in> set (fst (traverse_loop rec self fs d names))"
  shows "\<exists>b \<in> set names. (p, k) \<in> set (fst (traverse_step rec self fs d b))"
  using assms
proof (induction names)
  case Nil
  then show ?case by simp
next
  case (Cons b rest)
  then show ?case
    by (auto simp add: Let_def split: if_splits)
qed

lemma traverse_loop_concat:
  "\<exists>k \<le> length names.
      fst (traverse_loop rec self fs d names) =
        concat (map (\<lambda>b. fst (traverse_step rec self fs d b)) (take k names))
      \<and> (snd (traverse_loop rec self fs d names) = Done \<longrightarrow> k = length names)"
proof (induction names)
  case Nil
  then show ?case by simp
next
  case (Cons b rest)
  show ?case
  proof (cases "snd (traverse_step rec self fs d b) = Done")
    case True
    from Cons obtain k where k: "k \<le> length rest"
      "fst (traverse_loop rec self fs d rest) =
        concat (map (\<lambda>b. fst (traverse_step rec self fs d b)) (take k rest))"
      "snd (traverse_loop rec self fs d rest) = Done \<longrightarrow> k = length rest"
      by blast
    with True show ?thesis
      by (intro exI [of _ "Suc k"]) (simp add: Let_def)
  next
    case False
    then show ?thesis
      by (intro exI [of _ "Suc 0"]) (simp add: Let_def)
  qed
qed

lemma walk_Cons: "walk d (b # bs) = walk (os_path_join d b) bs"
  by (simp add: walk_def)

lemma walk_Nil: "walk d [] = d"
  by (simp add: walk_def)

lemma traverse_yield:
  assumes "(p, k) \<in> set (fst (traverse n self fs start))"
  shows "k \<in> {Binary, Text, Gzip} \<and> categorize_path self fs p = Inr k
         \<and> (\<exists>bs. p = walk start bs \<and> descent self fs start bs
               \<and> (skip_sub_dirs self \<longrightarrow> length bs \<le> 1))"
  using assms
proof (induction n arbitrary: start)
  case 0
  then show ?case by simp
next
  case (Suc n)
  show ?case
  proof (cases "categorize_path self fs start")
    case (Inl e)
    with Suc.prems show ?thesis by simp
  next
    case (Inr kind)
    show ?thesis
    proof (cases "kind \<in> {Binary, Text, Gzip}")
      case True
      with Suc.prems Inr have "p = start" "k = kind" by simp_all
      with True Inr show ?thesis
        by (intro conjI exI [of _ "[]"]) (simp_all add: walk_Nil)
    next
      case False
      with Suc.prems Inr have dir: "kind = Directory"
        by (auto split: if_splits)
      with Suc.prems Inr False obtain names where names: "listdir fs start = Some names"
        and loop: "(p, k) \<in> set (fst (traverse_loop (traverse n self fs) self fs start
                     (sort_key fsdecode names)))"
        by (auto split: option.splits)
      from traverse_loop_yield [OF loop] obtain b where b: "b \<in> set names"
        and step: "(p, k) \<in> set (fst (traverse_step (traverse n self fs) self fs start b))"
        by auto
      from traverse_step_yield [OF step] show ?thesis
      proof
        assume a: "p = os_path_join start b \<and> k \<in> {Binary, Text, Gzip}
            \<and> categorize_path self fs (os_path_join start b) = Inr k"
        have "descent self fs start [b]"
          using Inr dir names b by simp
        with a show ?thesis
          by (intro conjI exI [of _ "[b]"]) (simp_all add: walk_Cons walk_Nil)
      next
        assume a: "categorize_path self fs (os_path_join start b) = Inr Directory
            \<and> \<not> skip_sub_dirs self \<and> (p, k) \<in> set (fst (traverse n self fs (os_path_join start b)))"
        then have "(p, k) \<in> set (fst (traverse n self fs (os_path_join start b)))" by simp
        from Suc.IH [OF this] obtain bs where k: "k \<in> {Binary, Text, Gzip}"
          and c: "categorize_path self fs p = Inr k"
          and bs: "p = walk (os_path_join start b) bs" "descent self fs (os_path_join start b) bs"
          by blast
        have "descent self fs start (b # bs)"
          using Inr dir names b bs(2) by simp
        with k c bs(1) a show ?thesis
          by (intro conjI exI [of _ "b # bs"]) (simp_all add: walk_Cons)
      qed
    qed
  qed
qed


subsection \<open>A run on the small file system\<close>

lemma fsdecode_ascii:
  "list_all (\<lambda>c. of_char c < (0x80 :: nat)) s \<Longrightarrow> fsdecode s = map of_char s"
  by (induction s) (simp_all add: fsdecode_def)

lemma demo_sort:
  "sort_key fsdecode [''sub'', ''c.gz'', ''b.bin'', ''a.txt'', ''.git'', ''empty'']
     = [''.git'', ''a.txt'', ''b.bin'', ''c.gz'', ''empty'', ''sub'']"
  by (simp add: fsdecode_ascii)

lemma demo_sort_sub: "sort_key fsdecode [''z.txt'', ''y.txt''] = [''y.txt'', ''z.txt'']"
  by (simp add: fsdecode_ascii)

lemmas join_defs = os_path_join_def startswith_def endswith_def suffix_to_prefix

lemma demo_kinds:
  "categorize_path demo_finder demo_fs ''d'' = Inr Directory"
  "categorize_path demo_finder demo_fs ''d/.git'' = Inr Skip"
  "categorize_path demo_finder demo_fs ''d/a.txt'' = Inr Text"
  "categorize_path demo_finder demo_fs ''d/b.bin'' = Inr Binary"
  "categorize_path demo_finder demo_fs ''d/c.gz'' = Inr Gzip"
  "categorize_path demo_finder demo_fs ''d/empty'' = Inr Text"
  "categorize_path demo_finder demo_fs ''d/sub'' = Inr Directory"
  "categorize_path demo_finder demo_fs ''d/sub/y.txt'' = Inr Text"
  "categorize_path demo_finder demo_fs ''d/sub/z.txt'' = Inr Text"
  by (simp_all add: categorize_defs demo_defs demo_finder_def Finder_def path_defs
      is_binary_file_Stream)

lemma demo_listings:
  "listdir demo_fs ''d'' = Some [''sub'', ''c.gz'', ''b.bin'', ''a.txt'', ''.git'', ''empty'']"
  "listdir demo_fs ''d/sub'' = Some [''z.txt'', ''y.txt'']"
  by (simp_all add: demo_defs)

lemma demo_joins:
  "os_path_join ''d'' ''.git'' = ''d/.git''"
  "os_path_join ''d'' ''a.txt'' = ''d/a.txt''"
  "os_path_join ''d'' ''b.bin'' = ''d/b.bin''"
  "os_path_join ''d'' ''c.gz'' = ''d/c.gz''"
  "os_path_join ''d'' ''empty'' = ''d/empty''"
  "os_path_join ''d'' ''sub'' = ''d/sub''"
  "os_path_join ''d/sub'' ''y.txt'' = ''d/sub/y.txt''"
  "os_path_join ''d/sub'' ''z.txt'' = ''d/sub/z.txt''"
  by (simp_all add: join_defs)

lemma demo_not_rec: "\<not> skip_sub_dirs demo_finder"
  by (simp add: demo_finder_def Finder_def)

lemma demo_traverse_sub:
  "traverse (Suc 0) demo_finder demo_fs ''d/sub'' =
     ([(''d/sub/y.txt'', Text), (''d/sub/z.txt'', Text)], Done)"
  by (simp add: demo_kinds demo_listings fsdecode_ascii traverse_step_def demo_joins)

lemma demo_traverse:
  "traverse (Suc (Suc 0)) demo_finder demo_fs ''d'' =
     ([(''d/a.txt'', Text), (''d/b.bin'', Binary), (''d/c.gz'', Gzip), (''d/empty'', Text),
       (''d/sub/y.txt'', Text), (''d/sub/z.txt'', Text)], Done)"
  by (simp add: demo_kinds demo_listings fsdecode_ascii traverse_step_def demo_joins
        demo_not_rec demo_traverse_sub)

subsection \<open>What a traversal yields\<close>

text \<open>
  C3. Every pair that \<^verbatim>\<open>traverse\<close> yields, in a complete run or before the run stops,
  carries the classification of its path, and that classification is \<^verbatim>\<open>text\<close>,
  \<^verbatim>\<open>binary\<close> or \<^verbatim>\<open>gzip\<close>, never \<^verbatim>\<open>skip\<close>, \<^verbatim>\<open>link\<close>, \<^verbatim>\<open>directory\<close> or \<^verbatim>\<open>unreadable\<close>. The
  path is reached from the start path through a chain of basenames in which every path
  before the last is classified \<^verbatim>\<open>directory\<close> and lists the next basename: the traversal
  goes down through directories only (and not below the start's children when
  \<^verbatim>\<open>skip_sub_dirs\<close> is set).
\<close>

theorem traverse_yields_matchable:
  "(p, k) \<in> set (fst (traverse n self fs start)) \<longrightarrow>
     k \<in> {Text, Binary, Gzip} \<and> k \<notin> {Skip, Link, Directory, Unreadable}
     \<and> categorize_path self fs p = Inr k
     \<and> (\<exists>bs. p = walk start bs \<and> descent self fs start bs
           \<and> (skip_sub_dirs self \<longrightarrow> length bs \<le> 1))"
  using traverse_yield [of p k n self fs start] by auto

theorem traverse_yields_matchable_witness:
  "(''d/sub/y.txt'', Text) \<in> set (fst (traverse (Suc (Suc 0)) demo_finder demo_fs ''d''))
   \<and> categorize_path demo_finder demo_fs ''d/sub/y.txt'' = Inr Text
   \<and> (\<exists>bs. ''d/sub/y.txt'' = walk ''d'' bs \<and> descent demo_finder demo_fs ''d'' bs)"
proof -
  have "(''d/sub/y.txt'', Text) \<in> set (fst (traverse (Suc (Suc 0)) demo_finder demo_fs ''d''))"
    unfolding demo_traverse by simp
  with traverse_yields_matchable
      [of "''d/sub/y.txt''" Text "Suc (Suc 0)" demo_finder demo_fs "''d''"]
  show ?thesis by blast
qed

subsection \<open>The nesting bound\<close>

text \<open>
  A run that does not exceed the nesting bound is the same under every larger bound, and
  a bound above the length of every chain of directories below the start path is not
  exceeded.
\<close>

lemma traverse_step_rec_cong:
  assumes "snd (rec (os_path_join d b)) \<noteq> OutOfFuel \<longrightarrow> rec' (os_path_join d b) = rec (os_path_join d b)"
    and "snd (traverse_step rec self fs d b) \<noteq> OutOfFuel"
  shows "traverse_step rec' self fs d b = traverse_step rec self fs d b"
  using assms
  by (auto simp add: traverse_step_def Let_def split: sum.splits)

lemma traverse_loop_rec_cong:
  assumes "\<forall>b \<in> set names. snd (rec (os_path_join d b)) \<noteq> OutOfFuel \<longrightarrow>
             rec' (os_path_join d b) = rec (os_path_join d b)"
    and "snd (traverse_loop rec self fs d names) \<noteq> OutOfFuel"
  shows "traverse_loop rec' self fs d names = traverse_loop rec self fs d names"
  using assms
proof (induction names)
  case Nil
  then show ?case by simp
next
  case (Cons b rest)
  from Cons.prems(2) have s: "snd (traverse_step rec self fs d b) \<noteq> OutOfFuel"
    by (auto simp add: Let_def split: if_splits)
  with Cons.prems(1) have eq: "traverse_step rec' self fs d b = traverse_step rec self fs d b"
    by (intro traverse_step_rec_cong) simp_all
  show ?case
  proof (cases "snd (traverse_step rec self fs d b) = Done")
    case True
    with Cons.prems(2) have "snd (traverse_loop rec self fs d rest) \<noteq> OutOfFuel"
      by (simp add: Let_def)
    with Cons.IH Cons.prems(1)
    have "traverse_loop rec' self fs d rest = traverse_loop rec self fs d rest" by simp
    with eq True show ?thesis by (simp add: Let_def)
  next
    case False
    with eq show ?thesis by (simp add: Let_def)
  qed
qed

lemma traverse_fuel_mono:
  "snd (traverse n self fs p) \<noteq> OutOfFuel \<Longrightarrow> traverse (n + m) self fs p = traverse n self fs p"
proof (induction n arbitrary: p)
  case 0
  then show ?case by simp
next
  case (Suc n)
  show ?case
  proof (cases "categorize_path self fs p = Inr Directory \<and> listdir fs p \<noteq> None")
    case True
    then obtain names where names: "listdir fs p = Some names" by auto
    with True Suc.prems
    have "snd (traverse_loop (traverse n self fs) self fs p (sort_key fsdecode names))
        \<noteq> OutOfFuel"
      by simp
    moreover have "\<forall>b \<in> set (sort_key fsdecode names).
        snd (traverse n self fs (os_path_join p b)) \<noteq> OutOfFuel \<longrightarrow>
        traverse (n + m) self fs (os_path_join p b) = traverse n self fs (os_path_join p b)"
      using Suc.IH by blast
    ultimately have
      "traverse_loop (traverse (n + m) self fs) self fs p (sort_key fsdecode names) =
        traverse_loop (traverse n self fs) self fs p (sort_key fsdecode names)"
      by (intro traverse_loop_rec_cong) 
    with True names show ?thesis by simp
  next
    case False
    then show ?thesis
      by (auto split: sum.splits option.splits)
  qed
qed

lemma traverse_loop_all_done:
  assumes "\<forall>b \<in> set names. snd (traverse_step rec self fs d b) = Done"
  shows "traverse_loop rec self fs d names =
           (concat (map (\<lambda>b. fst (traverse_step rec self fs d b)) names), Done)"
  using assms by (induction names) (simp_all add: Let_def)

lemma traverse_loop_fuel:
  assumes "\<forall>b \<in> set names. snd (traverse_step rec self fs d b) \<noteq> OutOfFuel"
  shows "snd (traverse_loop rec self fs d names) \<noteq> OutOfFuel"
  using assms by (induction names) (simp_all add: Let_def)

lemma descent_first_Directory:
  assumes "descent self fs d (b # bs)"
    and "categorize_path self fs (walk d (b # bs)) = Inr Directory"
  shows "categorize_path self fs (os_path_join d b) = Inr Directory"
  using assms by (cases bs) (simp_all add: walk_Cons walk_Nil)

lemma traverse_enough_fuel:
  assumes "\<forall>bs. descent self fs d bs \<and> categorize_path self fs (walk d bs) = Inr Directory
             \<longrightarrow> length bs \<le> m"
  shows "snd (traverse (Suc m) self fs d) \<noteq> OutOfFuel"
  using assms
proof (induction m arbitrary: d)
  case 0
  show ?case
  proof (cases "categorize_path self fs d = Inr Directory \<and> listdir fs d \<noteq> None")
    case True
    then obtain names where names: "listdir fs d = Some names" by auto
    have "snd (traverse_step (traverse 0 self fs) self fs d b) \<noteq> OutOfFuel"
      if "b \<in> set names" for b
    proof -
      have "categorize_path self fs (os_path_join d b) \<noteq> Inr Directory"
      proof
        assume c: "categorize_path self fs (os_path_join d b) = Inr Directory"
        from True names that have "descent self fs d [b]" by simp
        with c "0.prems" have "length [b] \<le> 0"
          by (metis walk_Cons walk_Nil)
        then show False by simp
      qed
      then show ?thesis
        by (auto simp add: traverse_step_def Let_def split: sum.splits)
    qed
    then have "snd (traverse_loop (traverse 0 self fs) self fs d (sort_key fsdecode names))
        \<noteq> OutOfFuel"
      by (intro traverse_loop_fuel) simp
    with True names show ?thesis by simp
  next
    case False
    then show ?thesis by (auto split: sum.splits option.splits)
  qed
next
  case (Suc m)
  show ?case
  proof (cases "categorize_path self fs d = Inr Directory \<and> listdir fs d \<noteq> None")
    case True
    then obtain names where names: "listdir fs d = Some names" by auto
    have "snd (traverse_step (traverse (Suc m) self fs) self fs d b) \<noteq> OutOfFuel"
      if "b \<in> set names" for b
    proof -
      let ?c = "os_path_join d b"
      have "\<forall>bs. descent self fs ?c bs \<and> categorize_path self fs (walk ?c bs) = Inr Directory
             \<longrightarrow> length bs \<le> m"
      proof (intro allI impI)
        fix bs
        assume a: "descent self fs ?c bs \<and> categorize_path self fs (walk ?c bs) = Inr Directory"
        with True names that have "descent self fs d (b # bs)" by simp
        moreover from a have "categorize_path self fs (walk d (b # bs)) = Inr Directory"
          by (simp add: walk_Cons)
        ultimately have "length (b # bs) \<le> Suc m" using Suc.prems by blast
        then show "length bs \<le> m" by simp
      qed
      then have "snd (traverse (Suc m) self fs ?c) \<noteq> OutOfFuel" by (rule Suc.IH)
      then show ?thesis
        by (auto simp add: traverse_step_def Let_def split: sum.splits)
    qed
    then have "snd (traverse_loop (traverse (Suc m) self fs) self fs d
        (sort_key fsdecode names)) \<noteq> OutOfFuel"
      by (intro traverse_loop_fuel) simp
    with True names show ?thesis by simp
  next
    case False
    then show ?thesis by (auto split: sum.splits option.splits)
  qed
qed

subsection \<open>Order of the output\<close>

text \<open>
  C6, as amended. For a path \<open>d\<close> classified \<^verbatim>\<open>directory\<close> with listing \<open>names\<close>, the
  basenames are visited in ascending order of their code points (the order of Python
  strings on the decoded names), and the visited list is a permutation of the listing.
  The output of \<^verbatim>\<open>traverse\<close> is the concatenation, in that order, of one block per
  basename: of all of them, ending \<open>Done\<close>, when every block ends \<open>Done\<close>, and of the
  first \<open>k\<close> when the run stops early. A nesting bound above the length of every chain
  of directories below \<open>d\<close> is never exceeded. The block of a matchable child is that
  child alone; the block of a subdirectory that is recursed into is the whole output of
  its own traversal; any other child gives the empty block; and every entry of a block
  is reached from its child through directories, so a subtree is complete before the
  next sibling starts. The statement holds for every directory and every nesting
  bound, hence at every level.
\<close>

theorem traverse_sorted_depth_first:
  "categorize_path self fs d = Inr Directory \<and> listdir fs d = Some names \<longrightarrow>
     sorted (map fsdecode (sort_key fsdecode names))
     \<and> mset (sort_key fsdecode names) = mset names
     \<and> (\<exists>k \<le> length names.
           fst (traverse (Suc n) self fs d) =
             concat (map (\<lambda>b. fst (traverse_step (traverse n self fs) self fs d b))
                         (take k (sort_key fsdecode names)))
           \<and> (snd (traverse (Suc n) self fs d) = Done \<longrightarrow> k = length names))
     \<and> ((\<forall>b \<in> set names. snd (traverse_step (traverse n self fs) self fs d b) = Done) \<longrightarrow>
           traverse (Suc n) self fs d =
             (concat (map (\<lambda>b. fst (traverse_step (traverse n self fs) self fs d b))
                          (sort_key fsdecode names)), Done))
     \<and> ((\<forall>bs. descent self fs d bs \<and> categorize_path self fs (walk d bs) = Inr Directory
                \<longrightarrow> length bs \<le> n) \<longrightarrow>
           snd (traverse (Suc n) self fs d) \<noteq> OutOfFuel)
     \<and> (\<forall>b p k. (p, k) \<in> set (fst (traverse_step (traverse n self fs) self fs d b)) \<longrightarrow>
            (\<exists>bs. p = walk (os_path_join d b) bs \<and> descent self fs (os_path_join d b) bs))
     \<and> (\<forall>b k. categorize_path self fs (os_path_join d b) = Inr k \<and> k \<in> {Binary, Text, Gzip} \<longrightarrow>
            traverse_step (traverse n self fs) self fs d b = ([(os_path_join d b, k)], Done))
     \<and> (\<forall>b. categorize_path self fs (os_path_join d b) = Inr Directory \<and> \<not> skip_sub_dirs self \<longrightarrow>
            traverse_step (traverse n self fs) self fs d b = traverse n self fs (os_path_join d b))
     \<and> (\<forall>b k. categorize_path self fs (os_path_join d b) = Inr k \<and> k \<notin> {Binary, Text, Gzip}
              \<and> \<not> (k = Directory \<and> \<not> skip_sub_dirs self) \<longrightarrow>
            traverse_step (traverse n self fs) self fs d b = ([], Done))"
proof (intro impI conjI allI)
  show "sorted (map fsdecode (sort_key fsdecode names))" by simp
next
  show "mset (sort_key fsdecode names) = mset names" by simp
next
  assume a: "categorize_path self fs d = Inr Directory \<and> listdir fs d = Some names"
  then have "traverse (Suc n) self fs d =
      traverse_loop (traverse n self fs) self fs d (sort_key fsdecode names)"
    by simp
  then show "\<exists>k \<le> length names.
         fst (traverse (Suc n) self fs d) =
           concat (map (\<lambda>b. fst (traverse_step (traverse n self fs) self fs d b))
                       (take k (sort_key fsdecode names)))
         \<and> (snd (traverse (Suc n) self fs d) = Done \<longrightarrow> k = length names)"
    using traverse_loop_concat [of "sort_key fsdecode names" "traverse n self fs" self fs d]
    by simp
next
  assume a: "categorize_path self fs d = Inr Directory \<and> listdir fs d = Some names"
    and all_done: "\<forall>b \<in> set names. snd (traverse_step (traverse n self fs) self fs d b) = Done"
  from a have "traverse (Suc n) self fs d =
      traverse_loop (traverse n self fs) self fs d (sort_key fsdecode names)"
    by simp
  moreover from all_done
  have "\<forall>b \<in> set (sort_key fsdecode names).
      snd (traverse_step (traverse n self fs) self fs d b) = Done"
    by simp
  ultimately show "traverse (Suc n) self fs d =
             (concat (map (\<lambda>b. fst (traverse_step (traverse n self fs) self fs d b))
                          (sort_key fsdecode names)), Done)"
    by (simp only: traverse_loop_all_done)
next
  assume "\<forall>bs. descent self fs d bs \<and> categorize_path self fs (walk d bs) = Inr Directory
                \<longrightarrow> length bs \<le> n"
  then show "snd (traverse (Suc n) self fs d) \<noteq> OutOfFuel"
    by (rule traverse_enough_fuel)
next
  fix b p k
  assume "(p, k) \<in> set (fst (traverse_step (traverse n self fs) self fs d b))"
  from traverse_step_yield [OF this]
  show "\<exists>bs. p = walk (os_path_join d b) bs \<and> descent self fs (os_path_join d b) bs"
  proof
    assume "p = os_path_join d b \<and> k \<in> {Binary, Text, Gzip}
            \<and> categorize_path self fs (os_path_join d b) = Inr k"
    then show ?thesis by (intro exI [of _ "[]"]) (simp add: walk_Nil)
  next
    assume "categorize_path self fs (os_path_join d b) = Inr Directory
            \<and> \<not> skip_sub_dirs self \<and> (p, k) \<in> set (fst (traverse n self fs (os_path_join d b)))"
    then show ?thesis using traverse_yield by blast
  qed
next
  fix b k
  assume "categorize_path self fs (os_path_join d b) = Inr k \<and> k \<in> {Binary, Text, Gzip}"
  then show "traverse_step (traverse n self fs) self fs d b = ([(os_path_join d b, k)], Done)"
    by (simp add: traverse_step_def)
next
  fix b
  assume "categorize_path self fs (os_path_join d b) = Inr Directory \<and> \<not> skip_sub_dirs self"
  then show "traverse_step (traverse n self fs) self fs d b = traverse n self fs (os_path_join d b)"
    by (simp add: traverse_step_def)
next
  fix b k
  assume "categorize_path self fs (os_path_join d b) = Inr k \<and> k \<notin> {Binary, Text, Gzip}
              \<and> \<not> (k = Directory \<and> \<not> skip_sub_dirs self)"
  then show "traverse_step (traverse n self fs) self fs d b = ([], Done)"
    by (auto simp add: traverse_step_def)
qed

lemma demo_depth:
  "\<forall>bs. descent demo_finder demo_fs ''d'' bs
         \<and> categorize_path demo_finder demo_fs (walk ''d'' bs) = Inr Directory
       \<longrightarrow> length bs \<le> Suc 0"
proof (intro allI impI, rule ccontr)
  fix bs
  assume a: "descent demo_finder demo_fs ''d'' bs
         \<and> categorize_path demo_finder demo_fs (walk ''d'' bs) = Inr Directory"
    and "\<not> length bs \<le> Suc 0"
  then obtain b1 b2 rest where bs: "bs = b1 # b2 # rest"
    by (cases bs; cases "tl bs") auto
  let ?c = "os_path_join ''d'' b1"
  from a bs have b1: "b1 \<in> set [''sub'', ''c.gz'', ''b.bin'', ''a.txt'', ''.git'', ''empty'']"
    and sub: "descent demo_finder demo_fs ?c (b2 # rest)"
    and w: "categorize_path demo_finder demo_fs (walk ?c (b2 # rest)) = Inr Directory"
    by (simp_all add: demo_listings walk_Cons)
  from sub have c: "categorize_path demo_finder demo_fs ?c = Inr Directory"
    and b2: "case listdir demo_fs ?c of None \<Rightarrow> False | Some names \<Rightarrow> b2 \<in> set names"
    by simp_all
  from sub w have x: "categorize_path demo_finder demo_fs (os_path_join ?c b2) = Inr Directory"
    by (rule descent_first_Directory)
  from b1 c have "b1 = ''sub''"
    by (auto simp add: demo_joins demo_kinds)
  with b2 have "b2 = ''z.txt'' \<or> b2 = ''y.txt''"
    by (auto simp add: demo_joins demo_listings)
  with x \<open>b1 = ''sub''\<close> show False
    by (auto simp add: demo_joins demo_kinds)
qed

theorem traverse_sorted_depth_first_witness:
  "categorize_path demo_finder demo_fs ''d'' = Inr Directory
   \<and> listdir demo_fs ''d'' = Some [''sub'', ''c.gz'', ''b.bin'', ''a.txt'', ''.git'', ''empty'']
   \<and> sort_key fsdecode [''sub'', ''c.gz'', ''b.bin'', ''a.txt'', ''.git'', ''empty'']
       = [''.git'', ''a.txt'', ''b.bin'', ''c.gz'', ''empty'', ''sub'']
   \<and> traverse (Suc (Suc 0)) demo_finder demo_fs ''d'' =
       ([(''d/a.txt'', Text), (''d/b.bin'', Binary), (''d/c.gz'', Gzip), (''d/empty'', Text),
         (''d/sub/y.txt'', Text), (''d/sub/z.txt'', Text)], Done)
   \<and> snd (traverse (Suc (Suc 0)) demo_finder demo_fs ''d'') \<noteq> OutOfFuel
   \<and> traverse_step (traverse (Suc 0) demo_finder demo_fs) demo_finder demo_fs ''d'' ''sub''
       = traverse (Suc 0) demo_finder demo_fs ''d/sub''
   \<and> traverse_step (traverse (Suc 0) demo_finder demo_fs) demo_finder demo_fs ''d'' ''a.txt''
       = ([(''d/a.txt'', Text)], Done)
   \<and> traverse_step (traverse (Suc 0) demo_finder demo_fs) demo_finder demo_fs ''d'' ''.git''
       = ([], Done)"
proof -
  let ?names = "[''sub'', ''c.gz'', ''b.bin'', ''a.txt'', ''.git'', ''empty'']"
  let ?block = "traverse_step (traverse (Suc 0) demo_finder demo_fs) demo_finder demo_fs ''d''"
  have h: "categorize_path demo_finder demo_fs ''d'' = Inr Directory
      \<and> listdir demo_fs ''d'' = Some ?names"
    by (simp add: demo_kinds demo_listings)
  note order = traverse_sorted_depth_first [of demo_finder demo_fs "''d''" ?names "Suc 0",
      THEN mp, OF h]
  have subdir: "categorize_path demo_finder demo_fs (os_path_join ''d'' ''sub'') = Inr Directory
      \<and> \<not> skip_sub_dirs demo_finder"
    by (simp add: demo_joins demo_kinds demo_not_rec)
  have leaf: "categorize_path demo_finder demo_fs (os_path_join ''d'' ''a.txt'') = Inr Text
      \<and> Text \<in> {Binary, Text, Gzip}"
    by (simp add: demo_joins demo_kinds)
  have hidden: "categorize_path demo_finder demo_fs (os_path_join ''d'' ''.git'') = Inr Skip
      \<and> Skip \<notin> {Binary, Text, Gzip} \<and> \<not> (Skip = Directory \<and> \<not> skip_sub_dirs demo_finder)"
    by (simp add: demo_joins demo_kinds)
  from order subdir
  have "?block ''sub'' = traverse (Suc 0) demo_finder demo_fs (os_path_join ''d'' ''sub'')"
    by blast
  then have b_sub: "?block ''sub'' = traverse (Suc 0) demo_finder demo_fs ''d/sub''"
    by (simp only: demo_joins)
  from order leaf have "?block ''a.txt'' = ([(os_path_join ''d'' ''a.txt'', Text)], Done)"
    by blast
  then have b_a: "?block ''a.txt'' = ([(''d/a.txt'', Text)], Done)"
    by (simp only: demo_joins)
  from order hidden have b_git: "?block ''.git'' = ([], Done)"
    by blast
  have b_rest: "?block ''b.bin'' = ([(''d/b.bin'', Binary)], Done)"
    "?block ''c.gz'' = ([(''d/c.gz'', Gzip)], Done)"
    "?block ''empty'' = ([(''d/empty'', Text)], Done)"
    by (simp_all add: traverse_step_def demo_joins demo_kinds)
  have all_blocks: "\<forall>b \<in> set ?names. snd (?block b) = Done"
    by (simp add: b_sub b_a b_git b_rest demo_traverse_sub del: traverse.simps)
  with order have "traverse (Suc (Suc 0)) demo_finder demo_fs ''d'' =
      (concat (map (\<lambda>b. fst (?block b)) (sort_key fsdecode ?names)), Done)"
    by blast
  then have run: "traverse (Suc (Suc 0)) demo_finder demo_fs ''d'' =
       ([(''d/a.txt'', Text), (''d/b.bin'', Binary), (''d/c.gz'', Gzip), (''d/empty'', Text),
         (''d/sub/y.txt'', Text), (''d/sub/z.txt'', Text)], Done)"
    by (simp only: demo_sort)
       (simp add: b_sub b_a b_git b_rest demo_traverse_sub del: traverse.simps)
  from order demo_depth have "snd (traverse (Suc (Suc 0)) demo_finder demo_fs ''d'') \<noteq> OutOfFuel"
    by blast
  with h run b_sub b_a b_git show ?thesis
    by (simp only: demo_sort) simp
qed

text \<open>
  C6, as stated, asks for the byte order of the basenames. The code sorts the decoded
  names: in the directory \<^verbatim>\<open>u\<close> the name \<open>0xC3 0xA9\<close> decodes to the code point \<open>0xE9\<close>
  and the name \<open>0x80\<close> to the lone surrogate \<open>0xDC80\<close>, so the first is yielded before
  the second, although \<open>0x80\<close> is the smaller byte string. The basenames of the output
  are not in byte order.
\<close>

lemma utf_joins:
  "os_path_join ''u'' [CHR 0x80] = [CHR ''u'', CHR ''/'', CHR 0x80]"
  "os_path_join ''u'' [CHR 0xC3, CHR 0xA9] = [CHR ''u'', CHR ''/'', CHR 0xC3, CHR 0xA9]"
  by (simp_all add: join_defs)

lemma utf_kinds:
  "categorize_path default_finder utf_fs ''u'' = Inr Directory"
  "categorize_path default_finder utf_fs ([CHR ''u'', CHR ''/'', CHR 0x80]) = Inr Text"
  "categorize_path default_finder utf_fs ([CHR ''u'', CHR ''/'', CHR 0xC3, CHR 0xA9]) = Inr Text"
  by (simp_all add: categorize_defs utf_fs_def default_finder_def Finder_def path_defs
      is_binary_file_Stream)

lemma utf_sort:
  "sort_key fsdecode [[CHR 0x80], [CHR 0xC3, CHR 0xA9]] = [[CHR 0xC3, CHR 0xA9], [CHR 0x80]]"
  by (simp add: fsdecode_def cont_def)

theorem code_point_order_counterexample:
  "listdir utf_fs ''u'' = Some [[CHR 0x80], [CHR 0xC3, CHR 0xA9]]
   \<and> fsdecode [CHR 0x80] = [0xDC80] \<and> fsdecode [CHR 0xC3, CHR 0xA9] = [0xE9]
   \<and> traverse (Suc 0) default_finder utf_fs ''u'' =
       ([([CHR ''u'', CHR ''/'', CHR 0xC3, CHR 0xA9], Text), ([CHR ''u'', CHR ''/'', CHR 0x80], Text)], Done)
   \<and> snd (os_path_split ([CHR ''u'', CHR ''/'', CHR 0xC3, CHR 0xA9])) = [CHR 0xC3, CHR 0xA9]
   \<and> snd (os_path_split ([CHR ''u'', CHR ''/'', CHR 0x80])) = [CHR 0x80]
   \<and> [CHR 0x80] < [CHR 0xC3, CHR 0xA9]
   \<and> \<not> sorted (map (\<lambda>(p, k). snd (os_path_split p))
                   (fst (traverse (Suc 0) default_finder utf_fs ''u'')))"
proof -
  have l: "listdir utf_fs ''u'' = Some [[CHR 0x80], [CHR 0xC3, CHR 0xA9]]"
    by (simp add: utf_fs_def)
  have run: "traverse (Suc 0) default_finder utf_fs ''u'' =
       ([([CHR ''u'', CHR ''/'', CHR 0xC3, CHR 0xA9], Text), ([CHR ''u'', CHR ''/'', CHR 0x80], Text)], Done)"
    by (simp add: utf_kinds l utf_sort traverse_step_def utf_joins del: sort_key_simps)
  have d: "fsdecode [CHR 0x80] = [0xDC80]" "fsdecode [CHR 0xC3, CHR 0xA9] = [0xE9]"
    by (simp_all add: fsdecode_def cont_def)
  have s: "snd (os_path_split ([CHR ''u'', CHR ''/'', CHR 0xC3, CHR 0xA9])) = [CHR 0xC3, CHR 0xA9]"
    "snd (os_path_split ([CHR ''u'', CHR ''/'', CHR 0x80])) = [CHR 0x80]"
    by (simp_all add: os_path_split_def)
  have o: "[CHR 0x80] < [CHR 0xC3, CHR 0xA9]" by simp
  have "\<not> sorted (map (\<lambda>(p, k). snd (os_path_split p))
                   (fst (traverse (Suc 0) default_finder utf_fs ''u'')))"
    unfolding run using s by simp
  with l run d s o show ?thesis by simp
qed

subsection \<open>Hidden directories\<close>

lemma descent_listed: "descent self fs d bs \<Longrightarrow> listed fs d bs"
  by (induction bs arbitrary: d) auto

lemma listed_plain:
  assumes "plain_names fs"
  shows "listed fs d bs \<Longrightarrow> list_all plain bs"
proof (induction bs arbitrary: d)
  case Nil
  then show ?case by simp
next
  case (Cons b bs)
  from Cons.prems obtain names where "listdir fs d = Some names" "b \<in> set names"
    by (auto split: option.splits)
  with assms have "plain b"
    by (auto simp add: plain_names_def list_all_iff)
  moreover from Cons.prems have "listed fs (os_path_join d b) bs" by simp
  then have "list_all plain bs" by (rule Cons.IH)
  ultimately show ?case by simp
qed

lemma walk_append: "walk d (bs @ cs) = walk (walk d bs) cs"
  by (simp add: walk_def)

lemma listed_append: "listed fs d (bs @ cs) \<longleftrightarrow> listed fs d bs \<and> listed fs (walk d bs) cs"
  by (induction bs arbitrary: d) (auto simp add: walk_Nil walk_Cons)

lemma descent_middle:
  "descent self fs d (bs @ c # cs) \<Longrightarrow> categorize_path self fs (walk d bs) = Inr Directory"
  by (induction bs arbitrary: d) (auto simp add: walk_Nil walk_Cons)

lemma join_plain_cases:
  assumes "plain b"
  obtains d' where "os_path_join d b = d' @ b" and "d' = [] \<or> last d' = CHR ''/''"
    and "d' = d \<or> d' = d @ ''/''"
  using os_path_join_append [of b d] assms by (auto simp add: plain_def)

lemma length_join:
  assumes "plain b"
  shows "length d < length (os_path_join d b)"
proof -
  obtain d' where "os_path_join d b = d' @ b" "d' = d \<or> d' = d @ ''/''"
    by (rule join_plain_cases [OF assms])
  moreover from assms have "b \<noteq> []" by (simp add: plain_def)
  ultimately show ?thesis by auto
qed

lemma length_walk: "list_all plain bs \<Longrightarrow> length d \<le> length (walk d bs)"
proof (induction bs arbitrary: d)
  case Nil
  then show ?case by (simp add: walk_Nil)
next
  case (Cons b bs)
  then have "length (os_path_join d b) \<le> length (walk (os_path_join d b) bs)" by simp
  moreover from Cons.prems have "length d < length (os_path_join d b)"
    by (simp add: length_join)
  ultimately show ?case by (simp add: walk_Cons)
qed

lemma walk_snoc: "walk d (bs @ [b]) = os_path_join (walk d bs) b"
  by (simp add: walk_def)

lemma join_last:
  assumes "plain b"
  shows "os_path_join d b \<noteq> [] \<and> last (os_path_join d b) \<noteq> CHR ''/''"
proof -
  from assms have ne: "b \<noteq> []" and no: "CHR ''/'' \<notin> set b"
    by (simp_all add: plain_def)
  from ne have "last b \<in> set b" by (rule last_in_set)
  with no have "last b \<noteq> CHR ''/''" by auto
  moreover obtain d' where "os_path_join d b = d' @ b"
    by (rule join_plain_cases [OF assms])
  ultimately show ?thesis using ne by simp
qed

lemma walk_last:
  assumes "list_all plain bs" and "bs \<noteq> []"
  shows "walk d bs \<noteq> [] \<and> last (walk d bs) \<noteq> CHR ''/''"
proof -
  from assms(2) obtain xs x where "bs = xs @ [x]"
    by (cases bs rule: rev_cases) auto
  with assms(1) show ?thesis
    by (simp add: walk_snoc join_last)
qed

lemma join_walk_inj:
  assumes b: "plain b" and c: "plain c"
    and bs: "list_all plain bs" and cs: "list_all plain cs"
    and eq: "os_path_join (walk d bs) b = os_path_join (walk d cs) c"
  shows "b = c \<and> walk d bs = walk d cs"
proof -
  let ?P = "walk d bs" and ?Q = "walk d cs"
  have "snd (os_path_split (os_path_join ?P b)) = b"
    using b by (simp add: basename_join plain_def)
  moreover have "snd (os_path_split (os_path_join ?Q c)) = c"
    using c by (simp add: basename_join plain_def)
  ultimately have bc: "b = c" using eq by simp
  obtain P' where P': "os_path_join ?P b = P' @ b" "P' = [] \<or> last P' = CHR ''/''"
    "P' = ?P \<or> P' = ?P @ ''/''"
    by (rule join_plain_cases [OF b])
  obtain Q' where Q': "os_path_join ?Q c = Q' @ c" "Q' = [] \<or> last Q' = CHR ''/''"
    "Q' = ?Q \<or> Q' = ?Q @ ''/''"
    by (rule join_plain_cases [OF c])
  from P'(1) Q'(1) eq bc have PQ: "P' = Q'" by simp
  have no: False if "X = Y @ ''/''" "X = [] \<or> last X = CHR ''/''"
      "X = walk d xs" "Y = walk d ys" "list_all plain xs" "list_all plain ys" for X Y xs ys
  proof (cases "xs = []")
    case True
    with that(3) have "X = d" by (simp add: walk_Nil)
    with that(1) have "length d = Suc (length Y)" by simp
    moreover have "length d \<le> length Y"
      using that(4,6) by (simp add: length_walk)
    ultimately show False by simp
  next
    case False
    with that(3,5) have "X \<noteq> [] \<and> last X \<noteq> CHR ''/''"
      by (simp add: walk_last)
    with that(1) show False by simp
  qed
  have "?P = ?Q"
  proof (rule ccontr)
    assume ne: "?P \<noteq> ?Q"
    from P'(3) Q'(3) PQ ne have "?P = ?Q @ ''/'' \<or> ?Q = ?P @ ''/''" by auto
    then show False
    proof
      assume e: "?P = ?Q @ ''/''"
      with P'(2,3) have "?P = [] \<or> last ?P = CHR ''/''" by auto
      with e show False using no [of ?P ?Q bs cs] bs cs by simp
    next
      assume e: "?Q = ?P @ ''/''"
      with Q'(2,3) have "?Q = [] \<or> last ?Q = CHR ''/''" by auto
      with e show False using no [of ?Q ?P cs bs] bs cs by simp
    qed
  qed
  with bc show ?thesis by simp
qed

lemma walk_inj:
  assumes "list_all plain bs" and "list_all plain cs" and "walk d bs = walk d cs"
  shows "bs = cs"
  using assms
proof (induction bs arbitrary: cs rule: rev_induct)
  case Nil
  show ?case
  proof (cases cs rule: rev_cases)
    case Nil
    then show ?thesis by simp
  next
    case (snoc ys y)
    with Nil.prems have "length d < length (os_path_join (walk d ys) y)"
      using length_join [of y "walk d ys"] length_walk [of ys d] by simp
    with Nil.prems snoc show ?thesis by (simp add: walk_snoc walk_Nil)
  qed
next
  case (snoc x xs)
  show ?case
  proof (cases cs rule: rev_cases)
    case Nil
    from snoc.prems have "length d < length (os_path_join (walk d xs) x)"
      using length_join [of x "walk d xs"] length_walk [of xs d] by simp
    with snoc.prems Nil show ?thesis by (simp add: walk_snoc walk_Nil)
  next
    case (snoc ys y)
    with snoc.prems have "os_path_join (walk d xs) x = os_path_join (walk d ys) y"
      by (simp add: walk_snoc)
    with snoc.prems snoc have "x = y \<and> walk d xs = walk d ys"
      using join_walk_inj [of x y xs ys d] by simp
    with snoc.IH [of ys] snoc.prems snoc show ?thesis by simp
  qed
qed

text \<open>
  C9, as amended. With \<^verbatim>\<open>skip_hidden_dirs\<close> set and directory listings that hold plain
  file names, let \<open>h\<close> be the start path or a path reached from it through directory
  listings, with a hidden basename (it starts with a dot and is neither \<^verbatim>\<open>.\<close> nor
  \<^verbatim>\<open>..\<close>). Then no path reached from \<open>h\<close> through one or more further listings is
  yielded by the traversal of the start path, at any depth and whatever the names below
  \<open>h\<close>, in any run.
\<close>

theorem hidden_descendants_not_yielded:
  "plain_names fs \<and> skip_hidden_dirs self \<and> listed fs start cs \<and> h = walk start cs
   \<and> startswith (snd (os_path_split h)) ''.'' \<and> snd (os_path_split h) \<notin> {''.'', ''..''}
   \<and> es \<noteq> [] \<and> listed fs h es \<longrightarrow>
   (walk h es, k) \<notin> set (fst (traverse n self fs start))"
proof (intro impI notI, elim conjE)
  assume pn: "plain_names fs" and sh: "skip_hidden_dirs self"
    and cs: "listed fs start cs" and h: "h = walk start cs"
    and hid: "startswith (snd (os_path_split h)) ''.''" "snd (os_path_split h) \<notin> {''.'', ''..''}"
    and es: "es \<noteq> []" "listed fs h es"
    and y: "(walk h es, k) \<in> set (fst (traverse n self fs start))"
  from traverse_yield [OF y] obtain bs where bs: "walk h es = walk start bs"
    "descent self fs start bs"
    by blast
  from bs(2) have "listed fs start bs" by (rule descent_listed)
  with pn have pbs: "list_all plain bs" by (rule listed_plain)
  from cs es(2) h have "listed fs start (cs @ es)" by (simp add: listed_append)
  with pn have pce: "list_all plain (cs @ es)" by (rule listed_plain)
  from bs(1) h have "walk start bs = walk start (cs @ es)" by (simp add: walk_append)
  with pbs pce have "bs = cs @ es" by (rule walk_inj)
  moreover from es(1) obtain e es' where "es = e # es'" by (cases es) auto
  ultimately have "descent self fs start (cs @ e # es')" using bs(2) by simp
  then have "categorize_path self fs (walk start cs) = Inr Directory"
    by (rule descent_middle)
  with hidden_not_Directory [OF sh hid, of fs] h show False by simp
qed

lemma demo_plain_names: "plain_names demo_fs"
  by (auto simp add: plain_names_def demo_defs plain_def split: if_splits)

theorem hidden_descendants_not_yielded_witness:
  "plain_names demo_fs \<and> skip_hidden_dirs demo_finder \<and> listed demo_fs ''d'' [''.git'']
   \<and> ''d/.git'' = walk ''d'' [''.git'']
   \<and> snd (os_path_split ''d/.git'') = ''.git''
   \<and> listed demo_fs ''d/.git'' [''hooks'', ''pre.txt'']
   \<and> walk ''d/.git'' [''hooks'', ''pre.txt''] = ''d/.git/hooks/pre.txt''
   \<and> (''d/.git/hooks/pre.txt'', Text) \<notin> set (fst (traverse 3 demo_finder demo_fs ''d''))"
proof -
  have j: "os_path_join ''d'' ''.git'' = ''d/.git''"
    "os_path_join ''d/.git'' ''hooks'' = ''d/.git/hooks''"
    "os_path_join ''d/.git/hooks'' ''pre.txt'' = ''d/.git/hooks/pre.txt''"
    by (simp_all add: join_defs)
  have facts: "skip_hidden_dirs demo_finder" "listed demo_fs ''d'' [''.git'']"
    "''d/.git'' = walk ''d'' [''.git'']" "snd (os_path_split ''d/.git'') = ''.git''"
    "listed demo_fs ''d/.git'' [''hooks'', ''pre.txt'']"
    "walk ''d/.git'' [''hooks'', ''pre.txt''] = ''d/.git/hooks/pre.txt''"
    by (simp_all add: demo_finder_def Finder_def j demo_defs walk_def os_path_split_def)
  with demo_plain_names
    hidden_descendants_not_yielded [of demo_fs demo_finder "''d''" "[''.git'']" "''d/.git''"
      "[''hooks'', ''pre.txt'']" Text 3]
  show ?thesis by (simp add: startswith_def)
qed

text \<open>
  C9, as stated, quantifies over every traversal. A traversal started inside a hidden
  directory yields that directory's descendants: \<^verbatim>\<open>d/.git\<close> is a hidden directory,
  \<^verbatim>\<open>d/.git/hooks/pre.txt\<close> is below it, and the traversal of \<^verbatim>\<open>d/.git/hooks\<close> with
  \<^verbatim>\<open>skip_hidden_dirs\<close> set yields it. Only the basename of a classified path is
  checked, never the components of the start path.
\<close>

theorem hidden_start_inside_counterexample:
  "skip_hidden_dirs demo_finder
   \<and> startswith (snd (os_path_split ''d/.git'')) ''.''
   \<and> snd (os_path_split ''d/.git'') \<notin> {''.'', ''..''}
   \<and> map_option st_mode (os_stat demo_fs ''d/.git'') = Some S_IFDIR
   \<and> listed demo_fs ''d/.git'' [''hooks'', ''pre.txt'']
   \<and> walk ''d/.git'' [''hooks'', ''pre.txt''] = ''d/.git/hooks/pre.txt''
   \<and> (''d/.git/hooks/pre.txt'', Text)
        \<in> set (fst (traverse (Suc 0) demo_finder demo_fs ''d/.git/hooks''))"
proof -
  have j: "os_path_join ''d/.git'' ''hooks'' = ''d/.git/hooks''"
    "os_path_join ''d/.git/hooks'' ''pre.txt'' = ''d/.git/hooks/pre.txt''"
    by (simp_all add: join_defs)
  have k: "categorize_path demo_finder demo_fs ''d/.git/hooks'' = Inr Directory"
    "categorize_path demo_finder demo_fs ''d/.git/hooks/pre.txt'' = Inr Text"
    by (simp_all add: categorize_defs demo_defs demo_finder_def Finder_def path_defs
        is_binary_file_Stream)
  have l: "listdir demo_fs ''d/.git/hooks'' = Some [''pre.txt'']"
    by (simp add: demo_defs)
  have "traverse (Suc 0) demo_finder demo_fs ''d/.git/hooks'' =
      ([(''d/.git/hooks/pre.txt'', Text)], Done)"
    by (simp add: k l j traverse_step_def)
  then show ?thesis
    by (simp add: demo_finder_def Finder_def j demo_defs walk_def os_path_split_def
        startswith_def)
qed

text \<open>
  A start path written with a trailing separator has the empty basename, so the hidden
  check does not apply to it: \<^verbatim>\<open>d/.git/\<close> counts as a start path inside the hidden
  directory \<^verbatim>\<open>d/.git\<close>, not as a hidden start path.
\<close>

lemma trailing_separator_basename:
  "os_path_split ''d/.git/'' = (''d/.git'', [])"
  by (simp add: os_path_split_def rstrip_def)

end
